theory Spec2Isabelle
  imports Main
begin

section \<open>Data model\<close>

text \<open>
  The exceptions that the modelled functions of \<^verbatim>\<open>GameOfLife.py\<close> can raise.
\<close>

datatype error = IndexError | ValueError | TypeError | UnboundLocalError

text \<open>
  A grid is a two-dimensional numpy array: its shape and its rows. Cells are integers;
  the program writes only 0 (dead) and 1 (alive).
\<close>

record grid =
  shape0 :: nat
  shape1 :: nat
  cells :: "int list list"

definition wf_grid :: "grid \<Rightarrow> bool" where
  "wf_grid g \<longleftrightarrow>
     length (cells g) = shape0 g \<and>
     list_all (\<lambda>row. length row = shape1 g \<and> list_all (\<lambda>v. v = 0 \<or> v = 1) row) (cells g)"

text \<open>
  Indexing with a Python integer: a negative index counts from the end, and an index
  outside the range raises IndexError.
\<close>

definition np_getitem :: "'a list \<Rightarrow> int \<Rightarrow> error + 'a" where
  "np_getitem xs i =
     (let n = int (length xs); k = (if i < 0 then i + n else i)
      in if 0 \<le> k \<and> k < n then Inr (xs ! nat k) else Inl IndexError)"

definition bind_e :: "error + 'a \<Rightarrow> ('a \<Rightarrow> error + 'b) \<Rightarrow> error + 'b" where
  "bind_e m f = (case m of Inl e \<Rightarrow> Inl e | Inr v \<Rightarrow> f v)"

text \<open>The read \<^verbatim>\<open>g[i][j]\<close>: the row first, then the cell of the row.\<close>

definition np_getitem2 :: "grid \<Rightarrow> int \<Rightarrow> int \<Rightarrow> error + int" where
  "np_getitem2 g i j = bind_e (np_getitem (cells g) i) (\<lambda>row. np_getitem row j)"

section \<open>Neighbour counting\<close>

text \<open>
  \<^verbatim>\<open>checkArray\<close>: a negative row or column is replaced by the shape plus one, the cell
  is read, and an IndexError of the read (no other exception) is turned into 0.
\<close>

definition checkArray :: "grid \<Rightarrow> int \<Rightarrow> int \<Rightarrow> error + int" where
  "checkArray g r c =
     (let r1 = (if r < 0 then int (shape0 g) + 1 else r);
          c1 = (if c < 0 then int (shape1 g) + 1 else c)
      in case np_getitem2 g r1 c1 of
           Inl IndexError \<Rightarrow> Inr 0
         | Inl e \<Rightarrow> Inl e
         | Inr nVal \<Rightarrow> Inr nVal)"

definition add_e :: "error + int \<Rightarrow> error + int \<Rightarrow> error + int" where
  "add_e a b = bind_e a (\<lambda>x. bind_e b (\<lambda>y. Inr (x + y)))"

definition findNeighbors :: "grid \<Rightarrow> int \<Rightarrow> int \<Rightarrow> error + int" where
  "findNeighbors g r c =
     add_e (add_e (add_e (add_e (add_e (add_e (add_e
       (checkArray g (r - 1) (c - 1)) (checkArray g (r - 1) c))
       (checkArray g (r - 1) (c + 1))) (checkArray g (r + 1) (c - 1)))
       (checkArray g (r + 1) c)) (checkArray g (r + 1) (c + 1)))
       (checkArray g r (c - 1))) (checkArray g r (c + 1))"

text \<open>
  The reading of the specification: a position is live when it lies inside the grid and
  holds 1; the Moore neighbourhood is the eight adjacent offsets.
\<close>

definition live :: "grid \<Rightarrow> int \<Rightarrow> int \<Rightarrow> bool" where
  "live g r c \<longleftrightarrow>
     0 \<le> r \<and> r < int (shape0 g) \<and> 0 \<le> c \<and> c < int (shape1 g) \<and>
     cells g ! nat r ! nat c = 1"

definition moore :: "(int \<times> int) list" where
  "moore = [(-1, -1), (-1, 0), (-1, 1), (1, -1), (1, 0), (1, 1), (0, -1), (0, 1)]"

definition live_neighbours :: "grid \<Rightarrow> int \<Rightarrow> int \<Rightarrow> nat" where
  "live_neighbours g r c = length (filter (\<lambda>(dr, dc). live g (r + dr) (c + dc)) moore)"

definition blinker :: grid where
  "blinker = \<lparr>shape0 = 3, shape1 = 3, cells = [[0, 0, 0], [1, 1, 1], [0, 0, 0]]\<rparr>"

section \<open>One generation\<close>

text \<open>
  Arrays are objects: \<^verbatim>\<open>updateGrid\<close> copies the array it is given, fills the copy and
  writes the copy back into the array. The store is the list of the arrays allocated so
  far, and a reference is a position in it.
\<close>

type_synonym heap = "grid list"

text \<open>\<^verbatim>\<open>grid.copy()\<close>: a new array with the same contents, at a fresh reference.\<close>

definition np_copy :: "heap \<Rightarrow> nat \<Rightarrow> heap \<times> nat" where
  "np_copy h a = (h @ [h ! a], length h)"

text \<open>The write \<^verbatim>\<open>g[i][j] = v\<close>.\<close>

definition np_setitem2 :: "grid \<Rightarrow> int \<Rightarrow> int \<Rightarrow> int \<Rightarrow> error + grid" where
  "np_setitem2 g i j v =
     bind_e (np_getitem (cells g) i) (\<lambda>row.
     bind_e (np_getitem row j) (\<lambda>_.
       let n = int (length (cells g)); k = nat (if i < 0 then i + n else i);
           m = int (length row); l = nat (if j < 0 then j + m else j)
       in Inr (g\<lparr>cells := (cells g)[k := row[l := v]]\<rparr>)))"

text \<open>The branches of \<^verbatim>\<open>updateGrid\<close> that choose the next state of one cell.\<close>

definition nextState :: "int \<Rightarrow> int \<Rightarrow> int" where
  "nextState cur nAlive =
     (if cur = 1 then (if nAlive < 2 \<or> nAlive > 3 then 0 else 1)
      else (if nAlive = 3 then 1 else 0))"

text \<open>
  The inner loop over the columns \<open>js\<close> of row \<open>i\<close> and the outer loop over the rows:
  \<open>grid\<close> and \<open>nextGrid\<close> are references into the store.
\<close>

fun updateGrid_cols :: "nat \<Rightarrow> nat \<Rightarrow> nat \<Rightarrow> nat list \<Rightarrow> heap \<Rightarrow> error + heap" where
  "updateGrid_cols grid nextGrid i [] h = Inr h"
| "updateGrid_cols grid nextGrid i (j # js) h =
     bind_e (findNeighbors (h ! grid) (int i) (int j)) (\<lambda>nAlive.
     bind_e (np_getitem2 (h ! grid) (int i) (int j)) (\<lambda>cur.
     bind_e (np_setitem2 (h ! nextGrid) (int i) (int j) (nextState cur nAlive)) (\<lambda>ng.
       updateGrid_cols grid nextGrid i js (h[nextGrid := ng]))))"

fun updateGrid_rows :: "nat \<Rightarrow> nat \<Rightarrow> nat list \<Rightarrow> heap \<Rightarrow> error + heap" where
  "updateGrid_rows grid nextGrid [] h = Inr h"
| "updateGrid_rows grid nextGrid (i # is) h =
     bind_e (updateGrid_cols grid nextGrid i [0..<shape1 (h ! grid)] h)
       (updateGrid_rows grid nextGrid is)"

text \<open>
  \<^verbatim>\<open>updateGrid\<close>: the result is the store after the call and the reference returned.
  The last statement, \<^verbatim>\<open>grid[:] = nextGrid[:]\<close>, overwrites the cells of \<open>grid\<close>.
\<close>

definition updateGrid :: "heap \<Rightarrow> nat \<Rightarrow> error + (heap \<times> nat)" where
  "updateGrid h grid =
     (let (h1, nextGrid) = np_copy h grid
      in bind_e (updateGrid_rows grid nextGrid [0..<shape0 (h1 ! grid)] h1) (\<lambda>h2.
           Inr (h2[grid := (h2 ! grid)\<lparr>cells := cells (h2 ! nextGrid)\<rparr>], grid)))"

text \<open>
  The rule B3/S23 as the specification words it, over the live neighbours of the
  snapshot \<open>g\<close>.
\<close>

definition b3s23 :: "grid \<Rightarrow> nat \<Rightarrow> nat \<Rightarrow> int" where
  "b3s23 g i j =
     (let n = live_neighbours g (int i) (int j)
      in if live g (int i) (int j) then (if n = 2 \<or> n = 3 then 1 else 0)
         else (if n = 3 then 1 else 0))"

text \<open>Shape and row lengths of an array, as far as the loops need them.\<close>

definition dims :: "grid \<Rightarrow> nat \<Rightarrow> nat \<Rightarrow> bool" where
  "dims g R C \<longleftrightarrow>
     shape0 g = R \<and> shape1 g = C \<and> length (cells g) = R \<and>
     list_all (\<lambda>row. length row = C) (cells g)"

definition blinker_v :: grid where
  "blinker_v = \<lparr>shape0 = 3, shape1 = 3, cells = [[0, 1, 0], [0, 1, 0], [0, 1, 0]]\<rparr>"

section \<open>Resizing\<close>

text \<open>
  \<^verbatim>\<open>np.append(a, b, axis=0)\<close> puts the rows of \<open>b\<close> under those of \<open>a\<close>, and
  \<^verbatim>\<open>axis=1\<close> puts its columns to the right; numpy raises ValueError when the other
  dimension differs.
\<close>

definition np_append0 :: "grid \<Rightarrow> grid \<Rightarrow> error + grid" where
  "np_append0 a b =
     (if shape1 a = shape1 b
      then Inr \<lparr>shape0 = shape0 a + shape0 b, shape1 = shape1 a, cells = cells a @ cells b\<rparr>
      else Inl ValueError)"

definition np_append1 :: "grid \<Rightarrow> grid \<Rightarrow> error + grid" where
  "np_append1 a b =
     (if shape0 a = shape0 b
      then Inr \<lparr>shape0 = shape0 a, shape1 = shape1 a + shape1 b,
                cells = map2 (@) (cells a) (cells b)\<rparr>
      else Inl ValueError)"

text \<open>
  The two arrays of zeros that \<^verbatim>\<open>addSpace\<close> builds: one row of \<open>n\<close> cells, and one
  column of \<open>n\<close> cells (the one-dimensional array indexed with \<^verbatim>\<open>[:,None]\<close>).
\<close>

definition zeros_row :: "nat \<Rightarrow> grid" where
  "zeros_row n = \<lparr>shape0 = 1, shape1 = n, cells = [replicate n 0]\<rparr>"

definition zeros_col :: "nat \<Rightarrow> grid" where
  "zeros_col n = \<lparr>shape0 = n, shape1 = 1, cells = replicate n [0]\<rparr>"

text \<open>One pass of the loop of \<^verbatim>\<open>addSpace\<close>: below, above, right, left.\<close>

definition addSpace_ring :: "grid \<Rightarrow> error + grid" where
  "addSpace_ring g =
     bind_e (np_append0 g (zeros_row (shape1 g))) (\<lambda>g1.
     bind_e (np_append0 (zeros_row (shape1 g1)) g1) (\<lambda>g2.
     bind_e (np_append1 g2 (zeros_col (shape0 g2))) (\<lambda>g3.
     np_append1 (zeros_col (shape0 g3)) g3)))"

fun addSpace_loop :: "nat \<Rightarrow> grid \<Rightarrow> error + grid" where
  "addSpace_loop 0 expandedGrid = Inr expandedGrid"
| "addSpace_loop (Suc k) expandedGrid = bind_e (addSpace_ring expandedGrid) (addSpace_loop k)"

text \<open>\<^verbatim>\<open>range(extraSpace)\<close> is empty for a negative \<open>extraSpace\<close>.\<close>

definition addSpace :: "grid \<Rightarrow> int \<Rightarrow> error + grid" where
  "addSpace g extraSpace = addSpace_loop (nat extraSpace) g"

text \<open>
  The part of \<^verbatim>\<open>createAnimation\<close> that prepares the grid: the test on the shape, the
  argument passed to \<^verbatim>\<open>addSpace\<close> when it is called (None when it is not), and the
  grid that the generations then run on.
\<close>

definition createAnimation_extraSpace :: "grid \<Rightarrow> int \<Rightarrow> int option" where
  "createAnimation_extraSpace inGrid gridSize =
     (if int (shape0 inGrid) < gridSize \<or> int (shape1 inGrid) < gridSize
      then Some (max \<bar>gridSize - int (shape0 inGrid)\<bar> \<bar>gridSize - int (shape1 inGrid)\<bar>)
      else None)"

definition createAnimation_grid :: "grid \<Rightarrow> int \<Rightarrow> error + grid" where
  "createAnimation_grid inGrid gridSize =
     (case createAnimation_extraSpace inGrid gridSize of
        Some extraSpace \<Rightarrow> addSpace inGrid extraSpace
      | None \<Rightarrow> Inr inGrid)"

text \<open>
  The ring count in the words of the specification: the larger of the two per-axis
  deficits, a deficit being counted only when it is positive.
\<close>

definition spec_rings :: "grid \<Rightarrow> int \<Rightarrow> int" where
  "spec_rings inGrid gridSize =
     max (max 0 (gridSize - int (shape0 inGrid))) (max 0 (gridSize - int (shape1 inGrid)))"

definition tall_grid :: grid where
  "tall_grid = \<lparr>shape0 = 4, shape1 = 1, cells = [[1], [0], [0], [1]]\<rparr>"

definition glider :: grid where
  "glider = \<lparr>shape0 = 2, shape1 = 3, cells = [[0, 1, 0], [1, 1, 1]]\<rparr>"

section \<open>Bounding box\<close>

text \<open>
  \<^verbatim>\<open>findBoundaries\<close> starts the column bounds at \<^verbatim>\<open>math.inf\<close> and
  \<^verbatim>\<open>-math.inf\<close> and compares and subtracts them with integers: the values of these
  variables are integers or one of the floats inf, -inf, nan.
\<close>

datatype pynum = Fin int | PosInf | NegInf | NaN

text \<open>\<open>col < x\<close> and \<open>col > x\<close> for an integer \<open>col\<close>.\<close>

fun lt_num :: "int \<Rightarrow> pynum \<Rightarrow> bool" where
  "lt_num c (Fin m) = (c < m)"
| "lt_num c PosInf = True"
| "lt_num c NegInf = False"
| "lt_num c NaN = False"

fun gt_num :: "int \<Rightarrow> pynum \<Rightarrow> bool" where
  "gt_num c (Fin m) = (c > m)"
| "gt_num c PosInf = False"
| "gt_num c NegInf = True"
| "gt_num c NaN = False"

fun sub_num :: "pynum \<Rightarrow> pynum \<Rightarrow> pynum" where
  "sub_num (Fin a) (Fin b) = Fin (a - b)"
| "sub_num (Fin a) PosInf = NegInf"
| "sub_num (Fin a) NegInf = PosInf"
| "sub_num PosInf (Fin b) = PosInf"
| "sub_num PosInf NegInf = PosInf"
| "sub_num NegInf (Fin b) = NegInf"
| "sub_num NegInf PosInf = NegInf"
| "sub_num _ _ = NaN"

fun add_int :: "pynum \<Rightarrow> int \<Rightarrow> pynum" where
  "add_int (Fin a) k = Fin (a + k)"
| "add_int x k = x"

text \<open>
  A \<^verbatim>\<open>for\<close> loop over rows that breaks at the first row whose sum is positive. The
  result is the loop variable after the loop: the row of the break, else the last row
  visited, else unbound (None) when there is no row at all.
\<close>

fun first_row :: "grid \<Rightarrow> nat list \<Rightarrow> nat option \<Rightarrow> error + nat option" where
  "first_row g [] var = Inr var"
| "first_row g (r # rs) var =
     bind_e (np_getitem (cells g) (int r)) (\<lambda>row.
       if sum_list row > 0 then Inr (Some r) else first_row g rs (Some r))"

text \<open>The scan of one row, and the loop over the rows with its early exit.\<close>

fun scan_cols :: "grid \<Rightarrow> nat \<Rightarrow> nat list \<Rightarrow> pynum \<times> pynum \<Rightarrow> error + pynum \<times> pynum" where
  "scan_cols g row [] (minCol, maxCol) = Inr (minCol, maxCol)"
| "scan_cols g row (col # cs) (minCol, maxCol) =
     bind_e (np_getitem2 g (int row) (int col)) (\<lambda>v.
       scan_cols g row cs
         (if v = 1
          then (if lt_num (int col) minCol then (Fin (int col), maxCol)
                else if gt_num (int col) maxCol then (minCol, Fin (int col))
                else (minCol, maxCol))
          else (minCol, maxCol)))"

fun scan_rows :: "grid \<Rightarrow> nat list \<Rightarrow> pynum \<times> pynum \<Rightarrow> error + pynum \<times> pynum" where
  "scan_rows g [] (minCol, maxCol) = Inr (minCol, maxCol)"
| "scan_rows g (row # rs) (minCol, maxCol) =
     bind_e (scan_cols g row [0..<shape1 g] (minCol, maxCol)) (\<lambda>(minCol, maxCol).
       if minCol = Fin 0 \<and> maxCol = Fin (int (shape1 g) - 1) then Inr (minCol, maxCol)
       else scan_rows g rs (minCol, maxCol))"

text \<open>
  \<^verbatim>\<open>findBoundaries\<close>. Reading \<open>top\<close> or \<open>bot\<close> when the loop never assigned it
  raises UnboundLocalError.
\<close>

definition findBoundaries :: "grid \<Rightarrow> error + (nat \<times> nat \<times> pynum \<times> pynum)" where
  "findBoundaries g =
     bind_e (first_row g [0..<shape0 g] None) (\<lambda>top.
     bind_e (first_row g (rev [0..<shape0 g]) None) (\<lambda>bot.
       case (top, bot) of
         (Some t, Some b) \<Rightarrow>
           bind_e (scan_rows g [t..<b + 1] (PosInf, NegInf)) (\<lambda>(minCol, maxCol).
             Inr (t, b, minCol, maxCol))
       | _ \<Rightarrow> Inl UnboundLocalError))"

text \<open>
  The bounding box in the words of the specification: the smallest and largest row and
  column that hold a live cell.
\<close>

definition live_rows :: "grid \<Rightarrow> nat list" where
  "live_rows g = filter (\<lambda>r. \<exists>c\<in>set [0..<shape1 g]. cells g ! r ! c = 1) [0..<shape0 g]"

definition live_cols :: "grid \<Rightarrow> nat list" where
  "live_cols g = filter (\<lambda>c. \<exists>r\<in>set [0..<shape0 g]. cells g ! r ! c = 1) [0..<shape1 g]"

definition has_live :: "grid \<Rightarrow> bool" where
  "has_live g \<longleftrightarrow> live_rows g \<noteq> []"

definition spec_box :: "grid \<Rightarrow> nat \<times> nat \<times> nat \<times> nat" where
  "spec_box g = (hd (live_rows g), last (live_rows g), hd (live_cols g), last (live_cols g))"

definition single_cell :: grid where
  "single_cell = \<lparr>shape0 = 1, shape1 = 1, cells = [[1]]\<rparr>"

definition anti_diagonal :: grid where
  "anti_diagonal = \<lparr>shape0 = 2, shape1 = 2, cells = [[0, 1], [1, 0]]\<rparr>"

text \<open>
  The values that the column bounds of \<^verbatim>\<open>findBoundaries\<close> can take on a grid of \<open>C\<close>
  columns (the invariant of its scan), and the test of its first two loops.
\<close>

definition box_inv :: "nat \<Rightarrow> pynum \<Rightarrow> pynum \<Rightarrow> bool" where
  "box_inv C minCol maxCol \<longleftrightarrow>
     (case minCol of
        PosInf \<Rightarrow> maxCol = NegInf
      | Fin m \<Rightarrow> 0 \<le> m \<and> m < int C \<and>
          (case maxCol of NegInf \<Rightarrow> True | Fin M \<Rightarrow> m \<le> M \<and> M < int C | _ \<Rightarrow> False)
      | _ \<Rightarrow> False)"

definition row_live :: "grid \<Rightarrow> nat \<Rightarrow> bool" where
  "row_live g r \<longleftrightarrow> sum_list (cells g ! r) > 0"

section \<open>Writing RLE\<close>

text \<open>\<^verbatim>\<open>str\<close> of a non-negative integer, of an integer, and of a column bound.\<close>

definition digit_char :: "nat \<Rightarrow> char" where
  "digit_char d = ''0123456789'' ! d"

fun str_nat :: "nat \<Rightarrow> string" where
  "str_nat n = (if n < 10 then [digit_char n] else str_nat (n div 10) @ [digit_char (n mod 10)])"

declare str_nat.simps [simp del]

definition str_int :: "int \<Rightarrow> string" where
  "str_int i = (if i < 0 then CHR ''-'' # str_nat (nat (- i)) else str_nat (nat i))"

fun str_num :: "pynum \<Rightarrow> string" where
  "str_num (Fin i) = str_int i"
| "str_num PosInf = ''inf''"
| "str_num NegInf = ''-inf''"
| "str_num NaN = ''nan''"

text \<open>\<^verbatim>\<open>range(a, b)\<close> accepts integers only.\<close>

fun py_range :: "pynum \<Rightarrow> pynum \<Rightarrow> error + int list" where
  "py_range (Fin a) (Fin b) = Inr [a..b - 1]"
| "py_range _ _ = Inl TypeError"

fun map_e :: "('a \<Rightarrow> error + 'b) \<Rightarrow> 'a list \<Rightarrow> error + 'b list" where
  "map_e f [] = Inr []"
| "map_e f (x # xs) = bind_e (f x) (\<lambda>y. bind_e (map_e f xs) (\<lambda>ys. Inr (y # ys)))"

text \<open>
  \<^verbatim>\<open>[(label, sum(1 for _ in group)) for label, group in groupby(rowString)]\<close>: the
  maximal runs of equal characters, each with its length.
\<close>

fun groupby :: "string \<Rightarrow> (char \<times> nat) list" where
  "groupby [] = []"
| "groupby (c # cs) =
     (case groupby cs of
        [] \<Rightarrow> [(c, 1)]
      | (d, n) # rest \<Rightarrow> if c = d then (d, Suc n) # rest else (c, 1) # (d, n) # rest)"

text \<open>\<^verbatim>\<open>encodeGrid\<close>: the loop over the rows, \<open>encodedStrings\<close> being accumulated.\<close>

fun encodeGrid_rows ::
  "grid \<Rightarrow> nat list \<Rightarrow> nat \<Rightarrow> pynum \<Rightarrow> pynum \<Rightarrow> (char \<times> nat) list \<Rightarrow> error + (char \<times> nat) list"
where
  "encodeGrid_rows g [] bot_r minCol maxCol encodedStrings = Inr encodedStrings"
| "encodeGrid_rows g (row # rows) bot_r minCol maxCol encodedStrings =
     bind_e (py_range minCol (add_int maxCol 1)) (\<lambda>cols.
     bind_e (map_e (\<lambda>col. np_getitem2 g (int row) col) cols) (\<lambda>vals.
       let rowString = map (\<lambda>cell. if cell = 1 then CHR ''o'' else CHR ''b'') vals;
           groups = groupby rowString
       in encodeGrid_rows g rows bot_r minCol maxCol
            (encodedStrings @ groups @
               (if row \<noteq> bot_r then [(CHR ''$'', 1)] else [(CHR ''!'', 1)]))))"

definition encodeGrid ::
  "grid \<Rightarrow> nat \<Rightarrow> nat \<Rightarrow> pynum \<Rightarrow> pynum \<Rightarrow> error + (char \<times> nat) list" where
  "encodeGrid g top_r bot_r minCol maxCol = encodeGrid_rows g [top_r..<bot_r + 1] bot_r minCol maxCol []"

text \<open>
  The body of the \<^verbatim>\<open>while\<close> loop of \<^verbatim>\<open>writeRLE\<close> for one group: \<open>f\<close> is the text
  written to the file so far, \<open>individualLine\<close> the line being built.
\<close>

definition write_group :: "char \<times> nat \<Rightarrow> string \<Rightarrow> string \<Rightarrow> string \<times> string" where
  "write_group grp f individualLine =
     (if snd grp = 1
      then (if 1 + length individualLine > 70
            then (f @ individualLine @ [CHR 0x0A], [fst grp])
            else (f, individualLine @ [fst grp]))
      else (if length (str_nat (snd grp)) + length individualLine + 1 > 70
            then (f @ individualLine @ [CHR 0x0A], str_nat (snd grp) @ [fst grp])
            else (f, individualLine @ str_nat (snd grp) @ [fst grp])))"

text \<open>
  The \<^verbatim>\<open>while\<close> loop. It ends at the last group; reading a group of an empty list
  raises IndexError. The result is the text written and the exception raised, if any.
\<close>

function writeRLE_loop ::
  "(char \<times> nat) list \<Rightarrow> nat \<Rightarrow> string \<Rightarrow> string \<Rightarrow> string \<times> error option" where
  "writeRLE_loop RLEgroups pos f individualLine =
     (if pos \<ge> length RLEgroups then (f, Some IndexError)
      else if pos + 2 = length RLEgroups \<and> fst (RLEgroups ! pos) = CHR ''b''
      then writeRLE_loop RLEgroups (pos + 1) f individualLine
      else
        (case write_group (RLEgroups ! pos) f individualLine of
           (f1, line1) \<Rightarrow>
             if pos + 1 = length RLEgroups then (f1 @ line1, None)
             else writeRLE_loop RLEgroups (pos + 1) f1 line1))"
  by pat_completeness auto
termination
  by (relation "measure (\<lambda>(RLEgroups, pos, f, individualLine). length RLEgroups - pos)") auto

declare writeRLE_loop.simps [simp del]

text \<open>
  \<^verbatim>\<open>writeRLE\<close> after the call of \<^verbatim>\<open>findBoundaries\<close>, for the box that this call
  returned: the header is written before the groups are computed, so it is in the file
  even when a later step raises. Then \<^verbatim>\<open>writeRLE\<close> itself, which takes the box from
  \<^verbatim>\<open>findBoundaries\<close>.
\<close>

definition writeRLE_header :: "nat \<Rightarrow> nat \<Rightarrow> pynum \<Rightarrow> pynum \<Rightarrow> string" where
  "writeRLE_header top_r bot_r minCol maxCol =
     ''x = '' @ str_num (add_int (sub_num maxCol minCol) 1) @ '', y = '' @
     str_int (int bot_r - int top_r + 1) @ [CHR 0x0A]"

definition writeRLE_box :: "grid \<Rightarrow> nat \<Rightarrow> nat \<Rightarrow> pynum \<Rightarrow> pynum \<Rightarrow> string \<times> error option" where
  "writeRLE_box g top_r bot_r minCol maxCol =
     (case encodeGrid g top_r bot_r minCol maxCol of
        Inl e \<Rightarrow> (writeRLE_header top_r bot_r minCol maxCol, Some e)
      | Inr RLEgroups \<Rightarrow>
          writeRLE_loop RLEgroups 0 (writeRLE_header top_r bot_r minCol maxCol) [])"

definition writeRLE :: "grid \<Rightarrow> string \<times> error option" where
  "writeRLE g =
     (case findBoundaries g of
        Inl e \<Rightarrow> ([], Some e)
      | Inr (top_r, bot_r, minCol, maxCol) \<Rightarrow> writeRLE_box g top_r bot_r minCol maxCol)"

text \<open>
  Splitting a string at every character that satisfies \<open>P\<close>; the pieces between them
  are kept, the empty ones too. \<^verbatim>\<open>s.split(sep)\<close> for a one-character separator is
  an instance, and so are the physical lines of a text.
\<close>

fun split_where :: "(char \<Rightarrow> bool) \<Rightarrow> string \<Rightarrow> string list" where
  "split_where P [] = [[]]"
| "split_where P (c # cs) =
     (case split_where P cs of
        [] \<Rightarrow> [[]]
      | piece # pieces \<Rightarrow> if P c then [] # piece # pieces else (c # piece) # pieces)"

definition split_char :: "char \<Rightarrow> string \<Rightarrow> string list" where
  "split_char sep s = split_where (\<lambda>c. c = sep) s"

definition text_lines :: "string \<Rightarrow> string list" where
  "text_lines s = split_char (CHR 0x0A) s"

text \<open>
  The encoder in the words of the specification: the text of a run (the count is left
  out when it is 1), the run list without a dead run in the last place before the
  terminator, and the text of a list of lines.
\<close>

definition token :: "char \<times> nat \<Rightarrow> string" where
  "token grp = (if snd grp = 1 then [fst grp] else str_nat (snd grp) @ [fst grp])"

definition elide :: "(char \<times> nat) list \<Rightarrow> (char \<times> nat) list" where
  "elide gs =
     (if 2 \<le> length gs \<and> fst (gs ! (length gs - 2)) = CHR ''b''
      then take (length gs - 2) gs @ [last gs] else gs)"

fun join_lines :: "string list \<Rightarrow> string" where
  "join_lines [] = []"
| "join_lines [l] = l"
| "join_lines (l # ls) = l @ [CHR 0x0A] @ join_lines ls"

definition wide_row :: grid where
  "wide_row = \<lparr>shape0 = 1, shape1 = 80, cells = [concat (replicate 40 [1, 0])]\<rparr>"

section \<open>Reading RLE\<close>

text \<open>
  \<^verbatim>\<open>str.strip()\<close> removes leading and trailing whitespace. Strings are modelled as
  ASCII text, where the whitespace characters are the tab, the line feed, the vertical
  tab, the form feed, the carriage return, the four separators 0x1C to 0x1F and the space.
\<close>

definition is_space :: "char \<Rightarrow> bool" where
  "is_space c \<longleftrightarrow>
     c \<in> set [CHR 0x09, CHR 0x0A, CHR 0x0B, CHR 0x0C, CHR 0x0D,
               CHR 0x1C, CHR 0x1D, CHR 0x1E, CHR 0x1F, CHR 0x20]"

definition strip :: "string \<Rightarrow> string" where
  "strip s = rev (dropWhile is_space (rev (dropWhile is_space s)))"

text \<open>
  \<^verbatim>\<open>int(s)\<close> for a string: surrounding whitespace is dropped, one sign is allowed, and
  the rest must be decimal digits, where single underscores may stand between two digits.
  Anything else raises ValueError. (The limit that recent interpreters put on the number
  of digits is not modelled.)
\<close>

definition is_digit :: "char \<Rightarrow> bool" where
  "is_digit c \<longleftrightarrow> c \<in> set ''0123456789''"

definition digit_val :: "char \<Rightarrow> nat" where
  "digit_val c = length (takeWhile (\<lambda>d. d \<noteq> c) ''0123456789'')"

fun digits_acc :: "string \<Rightarrow> nat \<Rightarrow> nat option" where
  "digits_acc [] acc = Some acc"
| "digits_acc (c # cs) acc =
     (if is_digit c then digits_acc cs (acc * 10 + digit_val c)
      else if c = CHR ''_'' then
        (case cs of
           [] \<Rightarrow> None
         | d # ds \<Rightarrow> if is_digit d then digits_acc ds (acc * 10 + digit_val d) else None)
      else None)"

definition parse_digits :: "string \<Rightarrow> nat option" where
  "parse_digits s =
     (case s of [] \<Rightarrow> None
      | c # cs \<Rightarrow> if is_digit c then digits_acc cs (digit_val c) else None)"

definition py_int :: "string \<Rightarrow> error + int" where
  "py_int s =
     (let t = strip s;
          (sign, body) = (case t of
                            [] \<Rightarrow> (1, [])
                          | c # cs \<Rightarrow> if c = CHR ''-'' then (- 1, cs)
                                      else if c = CHR ''+'' then (1, cs) else (1, t))
      in case parse_digits body of
           None \<Rightarrow> Inl ValueError
         | Some n \<Rightarrow> Inr (sign * int n))"

text \<open>
  The first loop of \<^verbatim>\<open>parseRLE\<close>, over the stripped lines: a comment line is skipped,
  a line that starts with \<open>x\<close> sets \<open>xvalue\<close> and \<open>yvalue\<close>, any other line is appended
  to \<open>RLEstring\<close>; a line (of the last two kinds) that ends with \<open>!\<close> ends the loop after
  the last character of \<open>RLEstring\<close> is dropped. Variables not yet assigned are None.
\<close>

definition header_value :: "string \<Rightarrow> error + int" where
  "header_value chunk = bind_e (np_getitem (split_char (CHR ''='') (strip chunk)) 1) py_int"

fun parseRLE_lines ::
  "string list \<Rightarrow> string \<times> int option \<times> int option \<Rightarrow> error + (string \<times> int option \<times> int option)"
where
  "parseRLE_lines [] (RLEstring, xvalue, yvalue) = Inr (RLEstring, xvalue, yvalue)"
| "parseRLE_lines (line # rest) (RLEstring, xvalue, yvalue) =
     bind_e (np_getitem line 0) (\<lambda>c0.
       if c0 = CHR ''#'' then parseRLE_lines rest (RLEstring, xvalue, yvalue)
       else
         bind_e
           (if c0 = CHR ''x'' then
              (let chunks = split_char (CHR '','') line
               in bind_e (bind_e (np_getitem chunks 0) header_value) (\<lambda>x.
                  bind_e (bind_e (np_getitem chunks 1) header_value) (\<lambda>y.
                    Inr (RLEstring, Some x, Some y))))
            else Inr (RLEstring @ line, xvalue, yvalue))
           (\<lambda>(RLEstring, xvalue, yvalue).
              bind_e (np_getitem line (- 1)) (\<lambda>cl.
                if cl = CHR ''!'' then Inr (butlast RLEstring, xvalue, yvalue)
                else parseRLE_lines rest (RLEstring, xvalue, yvalue))))"

text \<open>
  One chunk (the text of one row): \<^verbatim>\<open>re.findall\<close> gives the tags, \<^verbatim>\<open>re.split\<close> the
  texts before, between and after them; the count of a tag is the integer in the text
  before it, or 1 when \<^verbatim>\<open>int\<close> raises ValueError.
\<close>

definition is_tag :: "char \<Rightarrow> bool" where
  "is_tag c \<longleftrightarrow> c = CHR ''b'' \<or> c = CHR ''o''"

definition curCt :: "string \<Rightarrow> error + int" where
  "curCt s = (case py_int s of Inl ValueError \<Rightarrow> Inr 1 | Inl e \<Rightarrow> Inl e | Inr n \<Rightarrow> Inr n)"

definition run_cells :: "char \<times> string \<Rightarrow> error + int list" where
  "run_cells tc =
     bind_e (curCt (snd tc)) (\<lambda>n.
       Inr (if fst tc = CHR ''b'' then replicate (nat n) 0 else replicate (nat n) 1))"

definition gridLine_of :: "string \<Rightarrow> error + int list" where
  "gridLine_of chunk =
     (let RLEtags = filter is_tag chunk; tagCounts = split_where is_tag chunk
      in bind_e (map_e run_cells (zip RLEtags tagCounts)) (\<lambda>runs. Inr (concat runs)))"

text \<open>The second loop, over the chunks; \<open>xvalue\<close> is read after each row is decoded.\<close>

definition fill_line :: "int \<Rightarrow> int list \<Rightarrow> int list" where
  "fill_line xvalue gridLine =
     (if int (length gridLine) \<noteq> xvalue
      then gridLine @ replicate (nat (xvalue - int (length gridLine))) 0
      else gridLine)"

fun parseRLE_chunks :: "string list \<Rightarrow> int option \<Rightarrow> int list list \<Rightarrow> error + int list list" where
  "parseRLE_chunks [] xvalue grid = Inr grid"
| "parseRLE_chunks (chunk # chunks) xvalue grid =
     bind_e (gridLine_of chunk) (\<lambda>gridLine.
       case xvalue of
         None \<Rightarrow> Inl UnboundLocalError
       | Some x \<Rightarrow> parseRLE_chunks chunks xvalue (grid @ [fill_line x gridLine]))"

text \<open>
  \<^verbatim>\<open>np.array(grid)\<close> for a list of rows. Rows of equal length give a two-dimensional
  array. For rows of different lengths numpy 1.24 and later raise ValueError (earlier
  versions build a one-dimensional array of lists, which is no grid either).
\<close>

definition np_array :: "int list list \<Rightarrow> error + grid" where
  "np_array rows =
     (case rows of
        [] \<Rightarrow> Inr \<lparr>shape0 = 0, shape1 = 0, cells = []\<rparr>
      | r # rs \<Rightarrow>
          if list_all (\<lambda>q. length q = length r) rs
          then Inr \<lparr>shape0 = length rows, shape1 = length r, cells = rows\<rparr>
          else Inl ValueError)"

text \<open>\<^verbatim>\<open>parseRLE\<close> on the lines of the file.\<close>

definition parseRLE :: "string list \<Rightarrow> error + grid" where
  "parseRLE file_lines =
     bind_e (parseRLE_lines (map strip file_lines) ([], None, None)) (\<lambda>(RLEstring, xvalue, yvalue).
     bind_e (parseRLE_chunks (split_char (CHR ''$'') RLEstring) xvalue []) np_array)"

text \<open>
  The lines that iterating over a text file gives: the pieces between line feeds, without
  an empty piece after a final line feed.
\<close>

definition file_lines :: "string \<Rightarrow> string list" where
  "file_lines s = (let ls = split_char (CHR 0x0A) s in if last ls = [] then butlast ls else ls)"

text \<open>
  What the decoder computes, without the exceptions: the count of a run, the cells of
  one chunk, and the examples used below.
\<close>

definition count_of :: "string \<Rightarrow> int" where
  "count_of s = (case py_int s of Inl e \<Rightarrow> 1 | Inr n \<Rightarrow> n)"

definition tag_cell :: "char \<Rightarrow> int" where
  "tag_cell t = (if t = CHR ''b'' then 0 else 1)"

definition expand :: "string \<Rightarrow> int list" where
  "expand chunk =
     concat (map (\<lambda>tc. replicate (nat (count_of (snd tc))) (tag_cell (fst tc)))
       (zip (filter is_tag chunk) (split_where is_tag chunk)))"


text \<open>
  The \<^verbatim>\<open>while\<close> loop of \<^verbatim>\<open>writeRLE\<close> seen from the groups still to be written (the
  groups from \<open>pos\<close> on): the form in which its properties are proved.
\<close>

fun write_rest :: "(char \<times> nat) list \<Rightarrow> string \<Rightarrow> string \<Rightarrow> string \<times> error option" where
  "write_rest [] f line = (f, Some IndexError)"
| "write_rest [grp] f line = (case write_group grp f line of (f1, line1) \<Rightarrow> (f1 @ line1, None))"
| "write_rest (grp # grp' # rest) f line =
     (if rest = [] \<and> fst grp = CHR ''b'' then write_rest (grp' # rest) f line
      else (case write_group grp f line of (f1, line1) \<Rightarrow> write_rest (grp' # rest) f1 line1))"

text \<open>The largest array dimension of numpy, whose sizes are signed 64-bit integers.\<close>

definition index_sized :: "grid \<Rightarrow> bool" where
  "index_sized g \<longleftrightarrow> shape0 g < 2 ^ 63 \<and> shape1 g < 2 ^ 63"

text \<open>
  The header without its line feed, and the groups that \<^verbatim>\<open>encodeGrid\<close> can produce
  from a box of at most \<open>C\<close> columns.
\<close>

definition header_line :: "nat \<Rightarrow> nat \<Rightarrow> pynum \<Rightarrow> pynum \<Rightarrow> string" where
  "header_line top_r bot_r minCol maxCol =
     ''x = '' @ str_num (add_int (sub_num maxCol minCol) 1) @ '', y = '' @
     str_int (int bot_r - int top_r + 1)"

definition grp_ok :: "nat \<Rightarrow> char \<times> nat \<Rightarrow> bool" where
  "grp_ok C grp \<longleftrightarrow> fst grp \<in> set ''ob$!'' \<and> 1 \<le> snd grp \<and> snd grp \<le> max 1 C"

text \<open>
  The row string of \<^verbatim>\<open>encodeGrid\<close> for the columns \<open>m\<close> to \<open>M\<close> of a row, and the groups
  of a row with its terminator.
\<close>

definition row_string :: "grid \<Rightarrow> nat \<Rightarrow> int \<Rightarrow> int \<Rightarrow> string" where
  "row_string g row m M =
     map (\<lambda>col. if cells g ! row ! nat col = 1 then CHR ''o'' else CHR ''b'') [m..M]"

definition row_groups :: "grid \<Rightarrow> nat \<Rightarrow> int \<Rightarrow> int \<Rightarrow> nat \<Rightarrow> (char \<times> nat) list" where
  "row_groups g bot_r m M row =
     groupby (row_string g row m M) @ [if row \<noteq> bot_r then (CHR ''$'', 1) else (CHR ''!'', 1)]"

text \<open>
  The crop of a grid to rows \<open>t\<close> to \<open>b\<close> and columns \<open>m\<close> to \<open>M\<close>, the value of a
  string of digits, and the cells that a list of groups stands for.
\<close>

definition crop :: "grid \<Rightarrow> nat \<Rightarrow> nat \<Rightarrow> int \<Rightarrow> int \<Rightarrow> grid" where
  "crop g t b m M =
     \<lparr>shape0 = b + 1 - t, shape1 = nat (M - m + 1),
      cells = map (\<lambda>r. map (\<lambda>c. cells g ! r ! nat c) [m..M]) [t..<b + 1]\<rparr>"

definition digits_value :: "string \<Rightarrow> nat" where
  "digits_value s = foldl (\<lambda>a c. a * 10 + digit_val c) 0 s"

definition run_cells_of :: "(char \<times> nat) list \<Rightarrow> int list" where
  "run_cells_of gl = concat (map (\<lambda>grp. replicate (snd grp) (tag_cell (fst grp))) gl)"

definition runs_text :: "(char \<times> nat) list \<Rightarrow> string" where
  "runs_text gl = concat (map token gl)"

definition trim_dead :: "(char \<times> nat) list \<Rightarrow> (char \<times> nat) list" where
  "trim_dead gl = (if gl \<noteq> [] \<and> fst (last gl) = CHR ''b'' then butlast gl else gl)"

definition body_tag :: "char \<Rightarrow> bool" where
  "body_tag c \<longleftrightarrow> c = CHR ''o'' \<or> c = CHR ''b'' \<or> c = CHR ''$''"

definition any_tag :: "char \<Rightarrow> bool" where
  "any_tag c \<longleftrightarrow> body_tag c \<or> c = CHR ''!''"

section \<open>Neighbour counting: proofs\<close>

lemma wf_grid_row:
  assumes "wf_grid g" "i < shape0 g"
  shows "length (cells g ! i) = shape1 g"
  using assms by (simp add: wf_grid_def list_all_length)

lemma wf_grid_cell:
  assumes "wf_grid g" "i < shape0 g" "j < shape1 g"
  shows "cells g ! i ! j = 0 \<or> cells g ! i ! j = 1"
  using assms by (simp add: wf_grid_def list_all_length)

lemma checkArray_live:
  assumes "wf_grid g"
  shows "checkArray g r c = Inr (if live g r c then 1 else 0)"
proof (cases "0 \<le> r \<and> r < int (shape0 g) \<and> 0 \<le> c \<and> c < int (shape1 g)")
  case True
  then have r: "nat r < shape0 g" and c: "nat c < shape1 g" by auto
  have len: "length (cells g) = shape0 g" using assms by (simp add: wf_grid_def)
  have row: "length (cells g ! nat r) = shape1 g" using wf_grid_row [OF assms r] .
  have "cells g ! nat r ! nat c = 0 \<or> cells g ! nat r ! nat c = 1"
    using wf_grid_cell [OF assms r c] .
  then show ?thesis
    using True len row by (auto simp: checkArray_def np_getitem2_def np_getitem_def bind_e_def live_def)
next
  case False
  have len: "length (cells g) = shape0 g" using assms by (simp add: wf_grid_def)
  have nl: "\<not> live g r c" using False by (auto simp: live_def)
  show ?thesis
  proof (cases "0 \<le> r \<and> r < int (shape0 g)")
    case rin: True
    then have "nat r < shape0 g" by auto
    then have row: "length (cells g ! nat r) = shape1 g" using wf_grid_row [OF assms] by blast
    show ?thesis
      using rin False len row nl by (auto simp: checkArray_def np_getitem2_def np_getitem_def bind_e_def)
  next
    case rout: False
    show ?thesis
      using rout len nl by (auto simp: checkArray_def np_getitem2_def np_getitem_def bind_e_def)
  qed
qed

lemma length_filter_sum:
  "int (length (filter P xs)) = sum_list (map (\<lambda>x. if P x then 1 else 0) xs)"
  by (induction xs) auto

lemma findNeighbors_live:
  assumes "wf_grid g"
  shows "findNeighbors g r c = Inr (int (live_neighbours g r c))"
  unfolding live_neighbours_def length_filter_sum
  by (simp add: findNeighbors_def checkArray_live [OF assms] add_e_def bind_e_def moore_def)

text \<open>
  C2. On a well-formed grid, for every row and column (inside or outside the grid),
  findNeighbors returns, without raising, the number of live cells among the eight Moore
  neighbours that lie inside the grid; a neighbour position outside the grid counts as 0
  and is never read from the opposite edge.
\<close>

theorem findNeighbors_counts_in_bounds:
  assumes "wf_grid g"
  shows "findNeighbors g r c = Inr (int (live_neighbours g r c))"
  using assms by (rule findNeighbors_live)

theorem findNeighbors_counts_in_bounds_witness:
  "wf_grid blinker \<and> findNeighbors blinker 0 0 = Inr 2 \<and> findNeighbors blinker (-1) 3 = Inr 0
   \<and> findNeighbors blinker 1 2 = Inr 1"
proof -
  have w: "wf_grid blinker" by (simp add: wf_grid_def blinker_def)
  have l: "live_neighbours blinker 0 0 = 2" "live_neighbours blinker (-1) 3 = 0"
    "live_neighbours blinker 1 2 = 1"
    by (simp_all add: live_neighbours_def moore_def live_def blinker_def)
  show ?thesis
    using w findNeighbors_counts_in_bounds [OF w, of 0 0]
      findNeighbors_counts_in_bounds [OF w, of "-1" 3]
      findNeighbors_counts_in_bounds [OF w, of 1 2] l
    by simp
qed

section \<open>One generation: proofs\<close>

lemma dims_nth:
  "dims g R C \<longleftrightarrow>
     shape0 g = R \<and> shape1 g = C \<and> length (cells g) = R \<and> (\<forall>r<R. length (cells g ! r) = C)"
  by (auto simp: dims_def list_all_length)

lemma wf_grid_dims: "wf_grid g \<Longrightarrow> dims g (shape0 g) (shape1 g)"
  by (simp add: wf_grid_def dims_nth list_all_length)

lemma np_getitem2_in:
  assumes "dims g R C" "i < R" "j < C"
  shows "np_getitem2 g (int i) (int j) = Inr (cells g ! i ! j)"
  using assms by (simp add: np_getitem2_def np_getitem_def bind_e_def dims_nth)

lemma np_setitem2_in:
  assumes "dims g R C" "i < R" "j < C"
  shows "np_setitem2 g (int i) (int j) v = Inr (g\<lparr>cells := (cells g)[i := (cells g ! i)[j := v]]\<rparr>)"
  using assms by (simp add: np_setitem2_def np_getitem_def bind_e_def dims_nth)

lemma dims_update:
  assumes "dims g R C"
  shows "dims (g\<lparr>cells := (cells g)[i := (cells g ! i)[j := v]]\<rparr>) R C"
proof -
  have "length ((cells g)[i := (cells g ! i)[j := v]] ! r) = C" if "r < R" for r
    using assms that by (cases "r = i") (simp_all add: dims_nth)
  then show ?thesis using assms by (simp add: dims_nth)
qed

lemma cells_update_nth:
  assumes "dims g R C" "i < R" "j < C" "r < R" "c < C"
  shows "(cells g)[i := (cells g ! i)[j := v]] ! r ! c =
           (if r = i \<and> c = j then v else cells g ! r ! c)"
proof (cases "r = i")
  case True
  then show ?thesis using assms by (cases "c = j") (simp_all add: dims_nth)
next
  case False
  then show ?thesis using assms by (simp add: dims_nth)
qed

lemma nextState_b3s23:
  assumes "wf_grid g" "i < shape0 g" "j < shape1 g"
  shows "nextState (cells g ! i ! j) (int (live_neighbours g (int i) (int j))) = b3s23 g i j"
  using assms wf_grid_cell [OF assms]
  by (auto simp: nextState_def b3s23_def live_def Let_def)

lemma updateGrid_cols_ok:
  assumes wf: "wf_grid g"
    and ne: "grid \<noteq> nextGrid" and lg: "grid < length h" and ln: "nextGrid < length h"
    and hg: "h ! grid = g" and d: "dims (h ! nextGrid) (shape0 g) (shape1 g)"
    and i: "i < shape0 g" and js: "\<forall>j\<in>set js. j < shape1 g"
  shows "\<exists>h'. updateGrid_cols grid nextGrid i js h = Inr h' \<and> length h' = length h \<and>
           (\<forall>a<length h. a \<noteq> nextGrid \<longrightarrow> h' ! a = h ! a) \<and>
           dims (h' ! nextGrid) (shape0 g) (shape1 g) \<and>
           (\<forall>r<shape0 g. \<forall>c<shape1 g. cells (h' ! nextGrid) ! r ! c =
              (if r = i \<and> c \<in> set js then b3s23 g r c else cells (h ! nextGrid) ! r ! c))"
  using ln lg hg d js
proof (induction js arbitrary: h)
  case Nil
  then show ?case by simp
next
  case (Cons j js)
  have j: "j < shape1 g" using Cons.prems by simp
  let ?v = "b3s23 g i j"
  let ?ng = "(h ! nextGrid)\<lparr>cells := (cells (h ! nextGrid))[i := (cells (h ! nextGrid) ! i)[j := ?v]]\<rparr>"
  let ?h1 = "h[nextGrid := ?ng]"
  have fn: "findNeighbors (h ! grid) (int i) (int j) = Inr (int (live_neighbours g (int i) (int j)))"
    using findNeighbors_live [OF wf] Cons.prems by simp
  have rd: "np_getitem2 (h ! grid) (int i) (int j) = Inr (cells g ! i ! j)"
    using np_getitem2_in [OF wf_grid_dims [OF wf] i j] Cons.prems by simp
  have wr: "np_setitem2 (h ! nextGrid) (int i) (int j) ?v = Inr ?ng"
    using np_setitem2_in [OF _ i j] Cons.prems by blast
  have step: "updateGrid_cols grid nextGrid i (j # js) h = updateGrid_cols grid nextGrid i js ?h1"
    by (simp add: fn rd wr bind_e_def nextState_b3s23 [OF wf i j])
  have p1: "nextGrid < length ?h1" "grid < length ?h1" using Cons.prems by simp_all
  have p2: "?h1 ! grid = g" using Cons.prems ne by simp
  have p3: "dims (?h1 ! nextGrid) (shape0 g) (shape1 g)"
    using dims_update [of "h ! nextGrid"] Cons.prems by simp
  have p4: "\<forall>j\<in>set js. j < shape1 g" using Cons.prems by simp
  from Cons.IH [OF p1 p2 p3 p4] obtain h' where
    r: "updateGrid_cols grid nextGrid i js ?h1 = Inr h'" and
    l: "length h' = length ?h1" and
    o: "\<forall>a<length ?h1. a \<noteq> nextGrid \<longrightarrow> h' ! a = ?h1 ! a" and
    dd: "dims (h' ! nextGrid) (shape0 g) (shape1 g)" and
    cc: "\<forall>r<shape0 g. \<forall>c<shape1 g. cells (h' ! nextGrid) ! r ! c =
              (if r = i \<and> c \<in> set js then b3s23 g r c else cells (?h1 ! nextGrid) ! r ! c)"
    by blast
  have dh: "dims (h ! nextGrid) (shape0 g) (shape1 g)" using Cons.prems by simp
  have cells1: "cells (?h1 ! nextGrid) ! r ! c =
      (if r = i \<and> c = j then ?v else cells (h ! nextGrid) ! r ! c)"
    if "r < shape0 g" "c < shape1 g" for r c
    using that Cons.prems(1) cells_update_nth [OF dh i j that] by simp
  have "\<forall>r<shape0 g. \<forall>c<shape1 g. cells (h' ! nextGrid) ! r ! c =
          (if r = i \<and> c \<in> set (j # js) then b3s23 g r c else cells (h ! nextGrid) ! r ! c)"
    using cc cells1 by auto
  moreover have "\<forall>a<length h. a \<noteq> nextGrid \<longrightarrow> h' ! a = h ! a" using o by simp
  ultimately show ?case using step r l dd by simp
qed

lemma updateGrid_rows_ok:
  assumes wf: "wf_grid g"
    and ne: "grid \<noteq> nextGrid" and lg: "grid < length h" and ln: "nextGrid < length h"
    and hg: "h ! grid = g" and d: "dims (h ! nextGrid) (shape0 g) (shape1 g)"
    and rows: "\<forall>i\<in>set rs. i < shape0 g"
  shows "\<exists>h'. updateGrid_rows grid nextGrid rs h = Inr h' \<and> length h' = length h \<and>
           (\<forall>a<length h. a \<noteq> nextGrid \<longrightarrow> h' ! a = h ! a) \<and>
           dims (h' ! nextGrid) (shape0 g) (shape1 g) \<and>
           (\<forall>r<shape0 g. \<forall>c<shape1 g. cells (h' ! nextGrid) ! r ! c =
              (if r \<in> set rs then b3s23 g r c else cells (h ! nextGrid) ! r ! c))"
  using ln lg hg d rows
proof (induction rs arbitrary: h)
  case Nil
  then show ?case by simp
next
  case (Cons i rs)
  have i: "i < shape0 g" using Cons.prems by simp
  have js: "\<forall>j\<in>set [0..<shape1 g]. j < shape1 g" by simp
  from updateGrid_cols_ok [OF wf ne Cons.prems(2) Cons.prems(1) Cons.prems(3) Cons.prems(4) i js]
  obtain h1 where
    r1: "updateGrid_cols grid nextGrid i [0..<shape1 g] h = Inr h1" and
    l1: "length h1 = length h" and
    o1: "\<forall>a<length h. a \<noteq> nextGrid \<longrightarrow> h1 ! a = h ! a" and
    d1: "dims (h1 ! nextGrid) (shape0 g) (shape1 g)" and
    c1: "\<forall>r<shape0 g. \<forall>c<shape1 g. cells (h1 ! nextGrid) ! r ! c =
              (if r = i \<and> c \<in> set [0..<shape1 g] then b3s23 g r c else cells (h ! nextGrid) ! r ! c)"
    by blast
  have p1: "nextGrid < length h1" "grid < length h1" using l1 Cons.prems by simp_all
  have p2: "h1 ! grid = g" using o1 ne Cons.prems by simp
  have p4: "\<forall>i\<in>set rs. i < shape0 g" using Cons.prems by simp
  from Cons.IH [OF p1 p2 d1 p4] obtain h' where
    r: "updateGrid_rows grid nextGrid rs h1 = Inr h'" and
    l: "length h' = length h1" and
    o: "\<forall>a<length h1. a \<noteq> nextGrid \<longrightarrow> h' ! a = h1 ! a" and
    dd: "dims (h' ! nextGrid) (shape0 g) (shape1 g)" and
    cc: "\<forall>r<shape0 g. \<forall>c<shape1 g. cells (h' ! nextGrid) ! r ! c =
              (if r \<in> set rs then b3s23 g r c else cells (h1 ! nextGrid) ! r ! c)"
    by blast
  have step: "updateGrid_rows grid nextGrid (i # rs) h = Inr h'"
    using r1 r Cons.prems(3) by (simp add: bind_e_def)
  have "\<forall>r<shape0 g. \<forall>c<shape1 g. cells (h' ! nextGrid) ! r ! c =
          (if r \<in> set (i # rs) then b3s23 g r c else cells (h ! nextGrid) ! r ! c)"
    using cc c1 by auto
  moreover have "\<forall>a<length h. a \<noteq> nextGrid \<longrightarrow> h' ! a = h ! a" using o o1 l1 by simp
  ultimately show ?case using step l l1 dd by simp
qed

lemma grid_eqI:
  fixes x y :: grid
  assumes "shape0 x = shape0 y" "shape1 x = shape1 y" "cells x = cells y"
  shows "x = y"
  using assms by simp

lemma updateGrid_result:
  assumes wf: "wf_grid g" and a: "a < length h" and hg: "h ! a = g"
  shows "\<exists>h'. updateGrid h a = Inr (h', a) \<and> length h' = Suc (length h) \<and>
           (\<forall>b<length h. b \<noteq> a \<longrightarrow> h' ! b = h ! b) \<and>
           h' ! a = h' ! length h \<and>
           dims (h' ! a) (shape0 g) (shape1 g) \<and>
           (\<forall>r<shape0 g. \<forall>c<shape1 g. cells (h' ! a) ! r ! c = b3s23 g r c)"
proof -
  let ?n = "length h"
  let ?h1 = "h @ [h ! a]"
  have ne: "a \<noteq> ?n" using a by simp
  have la: "a < length ?h1" and ln: "?n < length ?h1" using a by simp_all
  have g1: "?h1 ! a = g" using a hg by (simp add: nth_append)
  have d1: "dims (?h1 ! ?n) (shape0 g) (shape1 g)" using wf_grid_dims [OF wf] hg by simp
  have rs: "\<forall>i\<in>set [0..<shape0 g]. i < shape0 g" by simp
  from updateGrid_rows_ok [OF wf ne la ln g1 d1 rs] obtain h2 where
    r: "updateGrid_rows a ?n [0..<shape0 g] ?h1 = Inr h2" and
    l: "length h2 = length ?h1" and
    o: "\<forall>b<length ?h1. b \<noteq> ?n \<longrightarrow> h2 ! b = ?h1 ! b" and
    d: "dims (h2 ! ?n) (shape0 g) (shape1 g)" and
    c: "\<forall>r<shape0 g. \<forall>c<shape1 g. cells (h2 ! ?n) ! r ! c =
          (if r \<in> set [0..<shape0 g] then b3s23 g r c else cells (?h1 ! ?n) ! r ! c)"
    by blast
  let ?h3 = "h2[a := (h2 ! a)\<lparr>cells := cells (h2 ! ?n)\<rparr>]"
  have h2a: "h2 ! a = g" using o la ne g1 by simp
  have run: "updateGrid h a = Inr (?h3, a)"
    using r g1 by (simp add: updateGrid_def np_copy_def bind_e_def)
  have a2: "a < length h2" using l a by simp
  have h3a: "?h3 ! a = g\<lparr>cells := cells (h2 ! ?n)\<rparr>" using a2 h2a by simp
  have h3n: "?h3 ! ?n = h2 ! ?n" using ne by simp
  have eq: "?h3 ! a = ?h3 ! ?n"
    unfolding h3a h3n using d by (intro grid_eqI) (simp_all add: dims_nth)
  have dd: "dims (?h3 ! a) (shape0 g) (shape1 g)" using eq h3n d by simp
  have cc: "\<forall>r<shape0 g. \<forall>c<shape1 g. cells (?h3 ! a) ! r ! c = b3s23 g r c"
    using c h3a by simp
  have oo: "\<forall>b<length h. b \<noteq> a \<longrightarrow> ?h3 ! b = h ! b"
    using o by (simp add: nth_append)
  show ?thesis using run l oo eq dd cc by simp
qed

lemma b3s23_binary: "b3s23 g i j = 0 \<or> b3s23 g i j = 1"
  by (simp add: b3s23_def Let_def)

lemma dims_binary_wf:
  assumes "dims g R C" "\<forall>r<R. \<forall>c<C. cells g ! r ! c = 0 \<or> cells g ! r ! c = 1"
  shows "wf_grid g"
  using assms by (simp add: wf_grid_def dims_nth list_all_length)

text \<open>
  C1. On a well-formed grid, updateGrid returns a grid of the same shape, itself
  well-formed, in which every cell is what B3/S23 gives from the input grid: a live cell
  with 2 or 3 live Moore neighbours is alive, any other live cell is dead, a dead cell
  with exactly 3 live neighbours is alive and any other dead cell is dead. All neighbour
  counts are those of the grid as it was when the call began.
\<close>

theorem updateGrid_b3s23:
  assumes "wf_grid (h ! a)" and "a < length h"
  shows "\<exists>h'. updateGrid h a = Inr (h', a) \<and>
           shape0 (h' ! a) = shape0 (h ! a) \<and> shape1 (h' ! a) = shape1 (h ! a) \<and>
           wf_grid (h' ! a) \<and>
           (\<forall>i<shape0 (h ! a). \<forall>j<shape1 (h ! a). cells (h' ! a) ! i ! j = b3s23 (h ! a) i j)"
proof -
  from updateGrid_result [OF assms refl] obtain h' where
    r: "updateGrid h a = Inr (h', a)" and
    d: "dims (h' ! a) (shape0 (h ! a)) (shape1 (h ! a))" and
    c: "\<forall>r<shape0 (h ! a). \<forall>c<shape1 (h ! a). cells (h' ! a) ! r ! c = b3s23 (h ! a) r c"
    by blast
  have "wf_grid (h' ! a)"
    using d c b3s23_binary by (intro dims_binary_wf [OF d]) simp
  then show ?thesis using r d c by (auto simp: dims_nth)
qed

lemma updateGrid_blinker: "updateGrid [blinker] 0 = Inr ([blinker_v, blinker_v], 0)"
  by code_simp

theorem updateGrid_b3s23_witness:
  "wf_grid ([blinker] ! 0) \<and> (0::nat) < length [blinker] \<and>
   (\<exists>h'. updateGrid [blinker] 0 = Inr (h', 0) \<and>
      shape0 (h' ! 0) = 3 \<and> shape1 (h' ! 0) = 3 \<and> wf_grid (h' ! 0) \<and>
      (\<forall>i<3. \<forall>j<3. cells (h' ! 0) ! i ! j = b3s23 blinker i j)) \<and>
   updateGrid [blinker] 0 = Inr ([blinker_v, blinker_v], 0)"
proof -
  have w: "wf_grid ([blinker] ! 0)" by (simp add: wf_grid_def blinker_def)
  have l: "(0::nat) < length [blinker]" by simp
  have s: "shape0 blinker = 3" "shape1 blinker = 3" by (simp_all add: blinker_def)
  show ?thesis
    using w l updateGrid_b3s23 [OF w l] updateGrid_blinker s by simp
qed

text \<open>
  C10. updateGrid works in place: it returns the reference it was given, and after the
  call the array behind that reference holds the next generation (the same contents as
  the internal copy it computed), so the previous generation can no longer be read
  through it. The call allocates that one copy and changes no other array; a copy of the
  grid taken before the call still holds the previous generation afterwards.
\<close>

theorem updateGrid_in_place:
  assumes "wf_grid (h ! g)" and "g < length h"
  shows "(\<exists>h'. updateGrid h g = Inr (h', g) \<and> length h' = Suc (length h) \<and>
            h' ! g = h' ! length h \<and>
            (\<forall>i<shape0 (h ! g). \<forall>j<shape1 (h ! g). cells (h' ! g) ! i ! j = b3s23 (h ! g) i j) \<and>
            (\<forall>b<length h. b \<noteq> g \<longrightarrow> h' ! b = h ! b)) \<and>
         (\<exists>h'. updateGrid (fst (np_copy h g)) g = Inr (h', g) \<and>
            h' ! snd (np_copy h g) = h ! g)"
proof -
  from updateGrid_result [OF assms refl] have first:
    "\<exists>h'. updateGrid h g = Inr (h', g) \<and> length h' = Suc (length h) \<and>
            h' ! g = h' ! length h \<and>
            (\<forall>i<shape0 (h ! g). \<forall>j<shape1 (h ! g). cells (h' ! g) ! i ! j = b3s23 (h ! g) i j) \<and>
            (\<forall>b<length h. b \<noteq> g \<longrightarrow> h' ! b = h ! b)"
    by blast
  let ?h1 = "h @ [h ! g]"
  have e: "?h1 ! g = h ! g" using assms(2) by (simp add: nth_append)
  have w1: "wf_grid (?h1 ! g)" using assms(1) e by simp
  have l1: "g < length ?h1" using assms(2) by simp
  from updateGrid_result [OF w1 l1 refl] obtain h' where
    r: "updateGrid ?h1 g = Inr (h', g)" and
    o: "\<forall>b<length ?h1. b \<noteq> g \<longrightarrow> h' ! b = ?h1 ! b"
    by blast
  have "h' ! length h = h ! g" using o assms(2) by simp
  then have "\<exists>h'. updateGrid (fst (np_copy h g)) g = Inr (h', g) \<and>
            h' ! snd (np_copy h g) = h ! g"
    using r by (simp add: np_copy_def)
  then show ?thesis using first by blast
qed

theorem updateGrid_in_place_witness:
  "wf_grid ([blinker] ! 0) \<and> (0::nat) < length [blinker] \<and>
   (\<exists>h'. updateGrid [blinker] 0 = Inr (h', 0) \<and> length h' = Suc (Suc 0) \<and> h' ! 0 = h' ! Suc 0 \<and>
      (\<forall>i<3. \<forall>j<3. cells (h' ! 0) ! i ! j = b3s23 blinker i j)) \<and>
   (\<exists>h'. updateGrid [blinker, blinker] 0 = Inr (h', 0) \<and> h' ! Suc 0 = blinker)"
proof -
  have w: "wf_grid ([blinker] ! 0)" by (simp add: wf_grid_def blinker_def)
  have l: "(0::nat) < length [blinker]" by simp
  have s: "shape0 blinker = 3" "shape1 blinker = 3" by (simp_all add: blinker_def)
  show ?thesis
    using w l updateGrid_in_place [OF w l] s by (simp add: np_copy_def)
qed

section \<open>Resizing: proofs\<close>

lemma map2_pad_nth:
  assumes "length xs = n" "r < n"
  shows "map2 (@) (replicate n a) (map2 (@) xs (replicate n b)) ! r = a @ xs ! r @ b"
  using assms by simp

lemma addSpace_ring_ok:
  assumes d: "dims g R C"
  shows "\<exists>g'. addSpace_ring g = Inr g' \<and> dims g' (R + 2) (C + 2) \<and>
           (\<forall>r<R + 2. \<forall>c<C + 2. cells g' ! r ! c =
              (if 1 \<le> r \<and> r \<le> R \<and> 1 \<le> c \<and> c \<le> C then cells g ! (r - 1) ! (c - 1) else 0))"
proof -
  let ?z = "replicate C (0::int)"
  let ?rows = "?z # cells g @ [?z]"
  let ?g' = "\<lparr>shape0 = R + 2, shape1 = C + 2,
               cells = map2 (@) (replicate (R + 2) [0]) (map2 (@) ?rows (replicate (R + 2) [0]))\<rparr>"
  have s: "shape0 g = R" "shape1 g = C" "length (cells g) = R" using d by (simp_all add: dims_nth)
  have run: "addSpace_ring g = Inr ?g'"
    by (simp add: addSpace_ring_def np_append0_def np_append1_def zeros_row_def zeros_col_def
        bind_e_def s)
  have lr: "length ?rows = R + 2" using s by simp
  have row: "?rows ! r = (if 1 \<le> r \<and> r \<le> R then cells g ! (r - 1) else ?z)" if "r < R + 2" for r
    using that s by (auto simp: nth_Cons' nth_append)
  have rlen: "length (?rows ! r) = C" if "r < R + 2" for r
    using row [OF that] d that by (auto simp: dims_nth)
  have cr: "cells ?g' ! r = [0] @ ?rows ! r @ [0]" if "r < R + 2" for r
    by (simp only: grid.select_convs map2_pad_nth [OF lr that])
  have cell: "cells ?g' ! r ! c =
      (if 1 \<le> r \<and> r \<le> R \<and> 1 \<le> c \<and> c \<le> C then cells g ! (r - 1) ! (c - 1) else 0)"
    if r: "r < R + 2" and c: "c < C + 2" for r c
  proof -
    have "cells ?g' ! r ! c = (if c = 0 then 0 else if c \<le> C then ?rows ! r ! (c - 1) else 0)"
      unfolding cr [OF r] using rlen [OF r] c by (auto simp: nth_Cons' nth_append)
    also have "\<dots> = (if 1 \<le> r \<and> r \<le> R \<and> 1 \<le> c \<and> c \<le> C then cells g ! (r - 1) ! (c - 1) else 0)"
      using row [OF r] by auto
    finally show ?thesis .
  qed
  have dd: "dims ?g' (R + 2) (C + 2)"
    unfolding dims_nth using lr cr rlen by auto
  show ?thesis using run dd cell by blast
qed

lemma addSpace_loop_ok:
  assumes "dims g R C"
  shows "\<exists>g'. addSpace_loop n g = Inr g' \<and> dims g' (R + 2 * n) (C + 2 * n) \<and>
           (\<forall>r<R + 2 * n. \<forall>c<C + 2 * n. cells g' ! r ! c =
              (if n \<le> r \<and> r < R + n \<and> n \<le> c \<and> c < C + n
               then cells g ! (r - n) ! (c - n) else 0))"
  using assms
proof (induction n arbitrary: g R C)
  case 0
  then show ?case by simp
next
  case (Suc n)
  from addSpace_ring_ok [OF Suc.prems] obtain g1 where
    r1: "addSpace_ring g = Inr g1" and d1: "dims g1 (R + 2) (C + 2)" and
    c1: "\<forall>r<R + 2. \<forall>c<C + 2. cells g1 ! r ! c =
              (if 1 \<le> r \<and> r \<le> R \<and> 1 \<le> c \<and> c \<le> C then cells g ! (r - 1) ! (c - 1) else 0)"
    by blast
  from Suc.IH [OF d1] obtain g' where
    r: "addSpace_loop n g1 = Inr g'" and d: "dims g' (R + 2 + 2 * n) (C + 2 + 2 * n)" and
    c: "\<forall>r<R + 2 + 2 * n. \<forall>c<C + 2 + 2 * n. cells g' ! r ! c =
              (if n \<le> r \<and> r < R + 2 + n \<and> n \<le> c \<and> c < C + 2 + n
               then cells g1 ! (r - n) ! (c - n) else 0)"
    by blast
  have run: "addSpace_loop (Suc n) g = Inr g'" using r1 r by (simp add: bind_e_def)
  have dd: "dims g' (R + 2 * Suc n) (C + 2 * Suc n)" using d by (simp add: add.commute)
  have cell: "cells g' ! r ! c =
      (if Suc n \<le> r \<and> r < R + Suc n \<and> Suc n \<le> c \<and> c < C + Suc n
       then cells g ! (r - Suc n) ! (c - Suc n) else 0)"
    if rr: "r < R + 2 * Suc n" and cc: "c < C + 2 * Suc n" for r c
  proof -
    have rr': "r < R + 2 + 2 * n" and cc': "c < C + 2 + 2 * n" using rr cc by simp_all
    note outer = c [rule_format, OF rr' cc']
    show ?thesis
    proof (cases "n \<le> r \<and> r < R + 2 + n \<and> n \<le> c \<and> c < C + 2 + n")
      case True
      have e: "cells g' ! r ! c = cells g1 ! (r - n) ! (c - n)"
        unfolding outer by (rule if_P [OF True])
      have b: "r - n < R + 2" "c - n < C + 2" using True by auto
      note inner = c1 [rule_format, OF b]
      show ?thesis unfolding e inner using True by auto
    next
      case False
      have "cells g' ! r ! c = 0" unfolding outer by (rule if_not_P [OF False])
      then show ?thesis using False by auto
    qed
  qed
  show ?case using run dd cell by blast
qed

text \<open>
  C7. For a rows-by-cols grid and a ring count \<open>n \<ge> 0\<close>, addSpace returns a grid of
  rows + 2n by cols + 2n whose cell at (r + n, c + n) is the cell of the input at (r, c),
  for every position of the input, and whose every other cell is 0 (dead).
\<close>

theorem addSpace_centred:
  assumes "dims g R C" and "0 \<le> n"
  shows "\<exists>g'. addSpace g n = Inr g' \<and> dims g' (R + 2 * nat n) (C + 2 * nat n) \<and>
           (\<forall>r<R. \<forall>c<C. cells g' ! (r + nat n) ! (c + nat n) = cells g ! r ! c) \<and>
           (\<forall>r<R + 2 * nat n. \<forall>c<C + 2 * nat n.
              \<not> (nat n \<le> r \<and> r < R + nat n \<and> nat n \<le> c \<and> c < C + nat n) \<longrightarrow>
              cells g' ! r ! c = 0)"
proof -
  from addSpace_loop_ok [OF assms(1), of "nat n"] obtain g' where
    r: "addSpace_loop (nat n) g = Inr g'" and
    d: "dims g' (R + 2 * nat n) (C + 2 * nat n)" and
    c: "\<forall>r<R + 2 * nat n. \<forall>c<C + 2 * nat n. cells g' ! r ! c =
              (if nat n \<le> r \<and> r < R + nat n \<and> nat n \<le> c \<and> c < C + nat n
               then cells g ! (r - nat n) ! (c - nat n) else 0)"
    by blast
  have inner: "cells g' ! (r + nat n) ! (c + nat n) = cells g ! r ! c" if "r < R" "c < C" for r c
  proof -
    have b: "r + nat n < R + 2 * nat n" "c + nat n < C + 2 * nat n" using that by simp_all
    show ?thesis using c [rule_format, OF b] that by simp
  qed
  have outer: "cells g' ! r ! c = 0"
    if "r < R + 2 * nat n" "c < C + 2 * nat n"
      "\<not> (nat n \<le> r \<and> r < R + nat n \<and> nat n \<le> c \<and> c < C + nat n)" for r c
    using c [rule_format, OF that(1) that(2)] that(3) by simp
  show ?thesis using r d inner outer by (auto simp: addSpace_def)
qed

lemma addSpace_glider:
  "addSpace glider 1 = Inr \<lparr>shape0 = 4, shape1 = 5,
     cells = [[0, 0, 0, 0, 0], [0, 0, 1, 0, 0], [0, 1, 1, 1, 0], [0, 0, 0, 0, 0]]\<rparr>"
  by code_simp

theorem addSpace_centred_witness:
  "dims glider 2 3 \<and> (0::int) \<le> 1 \<and>
   (\<exists>g'. addSpace glider 1 = Inr g' \<and> dims g' 4 5 \<and>
      (\<forall>r<2. \<forall>c<3. cells g' ! (r + 1) ! (c + 1) = cells glider ! r ! c) \<and>
      (\<forall>r<4. \<forall>c<5. \<not> (1 \<le> r \<and> r < 3 \<and> 1 \<le> c \<and> c < 4) \<longrightarrow> cells g' ! r ! c = 0))"
proof -
  have d: "dims glider 2 3" by (simp add: dims_def glider_def)
  have n: "(0::int) \<le> 1" by simp
  show ?thesis using d addSpace_centred [OF d n] by simp
qed

text \<open>
  C9, as the claim states it, fails: on a 4-by-1 grid with requested size 2 only the
  columns fall short, by 1, but createAnimation passes 2 to addSpace, because it takes
  the absolute value of the difference on the rows as well.
\<close>

theorem createAnimation_rings_counterexample:
  "createAnimation_extraSpace tall_grid 2 = Some 2 \<and> spec_rings tall_grid 2 = 1 \<and>
   createAnimation_extraSpace tall_grid 2 \<noteq> Some (spec_rings tall_grid 2)"
  by (simp add: createAnimation_extraSpace_def spec_rings_def tall_grid_def)

text \<open>
  C9, amended. When the requested size exceeds the row count or the column count,
  createAnimation calls addSpace with the larger of the absolute differences
  |size - rows| and |size - cols|; this is the larger positive deficit whenever neither
  axis exceeds the requested size. Both axes of the resulting grid are at least the
  requested size. When the grid already meets the requested size on both axes, addSpace
  is not called and the grid is used as it is.
\<close>

theorem createAnimation_rings_abs:
  assumes "dims g R C"
  shows "(int R < s \<or> int C < s \<longrightarrow>
            createAnimation_extraSpace g s = Some (max \<bar>s - int R\<bar> \<bar>s - int C\<bar>) \<and>
            (int R \<le> s \<and> int C \<le> s \<longrightarrow> createAnimation_extraSpace g s = Some (spec_rings g s)) \<and>
            (\<exists>g'. createAnimation_grid g s = Inr g' \<and>
               shape0 g' = R + 2 * nat (max \<bar>s - int R\<bar> \<bar>s - int C\<bar>) \<and>
               shape1 g' = C + 2 * nat (max \<bar>s - int R\<bar> \<bar>s - int C\<bar>) \<and>
               s \<le> int (shape0 g') \<and> s \<le> int (shape1 g'))) \<and>
         (\<not> (int R < s \<or> int C < s) \<longrightarrow>
            createAnimation_extraSpace g s = None \<and> createAnimation_grid g s = Inr g)"
proof -
  have sh: "shape0 g = R" "shape1 g = C" using assms by (simp_all add: dims_nth)
  let ?n = "max \<bar>s - int R\<bar> \<bar>s - int C\<bar>"
  from addSpace_loop_ok [OF assms, of "nat ?n"] obtain g' where
    r: "addSpace_loop (nat ?n) g = Inr g'" and
    d: "dims g' (R + 2 * nat ?n) (C + 2 * nat ?n)"
    by blast
  have s0: "shape0 g' = R + 2 * nat ?n" and s1: "shape1 g' = C + 2 * nat ?n"
    using d by (simp_all add: dims_nth)
  have big: "s \<le> int (shape0 g') \<and> s \<le> int (shape1 g')" unfolding s0 s1 by linarith
  have yes: "createAnimation_extraSpace g s = Some ?n" if "int R < s \<or> int C < s"
    using that by (simp add: createAnimation_extraSpace_def sh)
  have spec: "createAnimation_extraSpace g s = Some (spec_rings g s)"
    if "int R < s \<or> int C < s" "int R \<le> s \<and> int C \<le> s"
    using that by (auto simp: createAnimation_extraSpace_def spec_rings_def sh)
  have grid: "createAnimation_grid g s = Inr g'" if "int R < s \<or> int C < s"
    using yes [OF that] r by (simp add: createAnimation_grid_def addSpace_def)
  have no: "createAnimation_extraSpace g s = None \<and> createAnimation_grid g s = Inr g"
    if "\<not> (int R < s \<or> int C < s)"
    using that by (simp add: createAnimation_grid_def createAnimation_extraSpace_def sh)
  show ?thesis using yes spec grid s0 s1 big no by blast
qed

theorem createAnimation_rings_abs_witness:
  "dims tall_grid 4 1 \<and>
   createAnimation_extraSpace tall_grid 2 = Some 2 \<and>
   (\<exists>g'. createAnimation_grid tall_grid 2 = Inr g' \<and> shape0 g' = 8 \<and> shape1 g' = 5) \<and>
   createAnimation_extraSpace tall_grid 1 = None \<and>
   createAnimation_grid tall_grid 1 = Inr tall_grid \<and>
   createAnimation_extraSpace tall_grid 5 = Some (spec_rings tall_grid 5)"
proof -
  have d: "dims tall_grid 4 1" by (simp add: dims_def tall_grid_def)
  show ?thesis
    using d createAnimation_rings_abs [OF d, of 2] createAnimation_rings_abs [OF d, of 1]
      createAnimation_rings_abs [OF d, of 5]
    by auto
qed

section \<open>Bounding box: proofs\<close>

lemma np_getitem_in:
  assumes "i < length xs"
  shows "np_getitem xs (int i) = Inr (xs ! i)"
  using assms by (simp add: np_getitem_def)

lemma first_row_find:
  assumes "length (cells g) = shape0 g" "\<forall>r\<in>set rs. r < shape0 g"
  shows "first_row g rs var =
           Inr (case find (row_live g) rs of
                  Some r \<Rightarrow> Some r
                | None \<Rightarrow> if rs = [] then var else Some (last rs))"
  using assms(2)
proof (induction rs arbitrary: var)
  case Nil
  then show ?case by simp
next
  case (Cons r rs)
  have rd: "np_getitem (cells g) (int r) = Inr (cells g ! r)"
    using Cons.prems assms(1) by (simp add: np_getitem_in)
  show ?case
  proof (cases "row_live g r")
    case True
    then show ?thesis using rd by (simp add: bind_e_def row_live_def)
  next
    case False
    have "first_row g (r # rs) var = first_row g rs (Some r)"
      using False rd by (simp add: bind_e_def row_live_def)
    also have "\<dots> = Inr (case find (row_live g) rs of
                  Some r \<Rightarrow> Some r
                | None \<Rightarrow> if rs = [] then Some r else Some (last rs))"
      using Cons by simp
    finally show ?thesis using False by (auto split: option.splits)
  qed
qed

lemma find_in_set:
  assumes "find P xs = Some x"
  shows "x \<in> set xs \<and> P x"
  using assms by (induction xs) (auto split: if_splits)

lemma find_hd_filter:
  assumes "filter P xs \<noteq> []"
  shows "find P xs = Some (hd (filter P xs))"
  using assms by (induction xs) auto

lemma find_rev_last_filter:
  assumes "filter P xs \<noteq> []"
  shows "find P (rev xs) = Some (last (filter P xs))"
proof -
  have "filter P (rev xs) \<noteq> []" using assms by (simp add: rev_filter [symmetric])
  from find_hd_filter [OF this] show ?thesis
    using assms by (simp add: rev_filter [symmetric] hd_rev)
qed

lemma scan_cols_ok:
  assumes "scan_cols g row cs (mn, mx) = Inr (mn', mx')" "\<forall>c\<in>set cs. c < C" "box_inv C mn mx"
  shows "box_inv C mn' mx'"
  using assms
proof (induction cs arbitrary: mn mx)
  case Nil
  then show ?case by simp
next
  case (Cons c cs)
  from Cons.prems(1) obtain v where
    v: "np_getitem2 g (int row) (int c) = Inr v"
    by (cases "np_getitem2 g (int row) (int c)") (simp_all add: bind_e_def)
  let ?st = "if v = 1
          then (if lt_num (int c) mn then (Fin (int c), mx)
                else if gt_num (int c) mx then (mn, Fin (int c))
                else (mn, mx))
          else (mn, mx)"
  have run: "scan_cols g row cs ?st = Inr (mn', mx')"
    using Cons.prems(1) v by (simp add: bind_e_def)
  have c: "c < C" using Cons.prems(2) by simp
  have ok: "box_inv C (fst ?st) (snd ?st)"
    using Cons.prems(3) c by (auto simp: box_inv_def split: pynum.splits)
  have rest: "\<forall>c\<in>set cs. c < C" using Cons.prems(2) by simp
  show ?case
    using Cons.IH [of "fst ?st" "snd ?st"] run rest ok by simp
qed

lemma scan_rows_ok:
  assumes "scan_rows g rs (mn, mx) = Inr (mn', mx')" "box_inv (shape1 g) mn mx"
  shows "box_inv (shape1 g) mn' mx'"
  using assms
proof (induction rs arbitrary: mn mx)
  case Nil
  then show ?case by simp
next
  case (Cons r rs)
  from Cons.prems(1) obtain a b where
    ab: "scan_cols g r [0..<shape1 g] (mn, mx) = Inr (a, b)"
    by (cases "scan_cols g r [0..<shape1 g] (mn, mx)") (auto simp: bind_e_def)
  have ok: "box_inv (shape1 g) a b"
    using scan_cols_ok [OF ab _ Cons.prems(2)] by simp
  show ?case
  proof (cases "a = Fin 0 \<and> b = Fin (int (shape1 g) - 1)")
    case True
    then have "(mn', mx') = (a, b)" using Cons.prems(1) ab by (simp add: bind_e_def)
    then show ?thesis using ok by simp
  next
    case False
    then have "scan_rows g rs (a, b) = Inr (mn', mx')"
      using Cons.prems(1) ab by (auto simp: bind_e_def)
    from Cons.IH [OF this ok] show ?thesis .
  qed
qed

lemma findBoundaries_ok:
  assumes "findBoundaries g = Inr (t, b, mn, mx)" "length (cells g) = shape0 g"
  shows "t < shape0 g \<and> b < shape0 g \<and> box_inv (shape1 g) mn mx"
proof -
  let ?R = "shape0 g"
  have in1: "\<forall>r\<in>set [0..<?R]. r < ?R" and in2: "\<forall>r\<in>set (rev [0..<?R]). r < ?R" by simp_all
  note f1 = first_row_find [OF assms(2) in1, of None]
  note f2 = first_row_find [OF assms(2) in2, of None]
  obtain ot ob where
    ot: "first_row g [0..<?R] None = Inr ot" and ob: "first_row g (rev [0..<?R]) None = Inr ob"
    using f1 f2 by blast
  have tb: "ot = Some t \<and> ob = Some b \<and> scan_rows g [t..<b + 1] (PosInf, NegInf) = Inr (mn, mx)"
    using assms(1) ot ob
    by (auto simp: findBoundaries_def bind_e_def split: option.splits sum.splits prod.splits)
  have "t \<in> set [0..<?R]"
    using f1 ot tb by (auto split: option.splits if_splits dest: find_in_set)
  moreover have "b \<in> set (rev [0..<?R])"
    using f2 ob tb by (auto split: option.splits if_splits dest: find_in_set simp: last_rev)
  moreover have "box_inv (shape1 g) mn mx"
    using scan_rows_ok [of g "[t..<b + 1]" PosInf NegInf mn mx] tb
    by (simp add: box_inv_def)
  ultimately show ?thesis by simp
qed

lemma sum_binary_pos:
  fixes xs :: "int list"
  assumes "\<forall>v\<in>set xs. v = 0 \<or> v = 1"
  shows "sum_list xs > 0 \<longleftrightarrow> 1 \<in> set xs"
  using assms
proof (induction xs)
  case Nil
  then show ?case by simp
next
  case (Cons x xs)
  have nn: "0 \<le> sum_list xs" using Cons.prems by (intro sum_list_nonneg) auto
  have ih: "sum_list xs > 0 \<longleftrightarrow> 1 \<in> set xs" using Cons by simp
  have "x = 0 \<or> x = 1" using Cons.prems by simp
  then show ?case
  proof
    assume "x = 0"
    then show ?thesis using ih by simp
  next
    assume "x = 1"
    then show ?thesis using nn by simp
  qed
qed

lemma row_live_iff:
  assumes "wf_grid g" "r < shape0 g"
  shows "row_live g r \<longleftrightarrow> (\<exists>c\<in>set [0..<shape1 g]. cells g ! r ! c = 1)"
proof -
  have len: "length (cells g ! r) = shape1 g" using wf_grid_row [OF assms] .
  have bin: "\<forall>v\<in>set (cells g ! r). v = 0 \<or> v = 1"
  proof -
    have "cells g ! r \<in> set (cells g)" using assms by (simp add: wf_grid_def)
    then show ?thesis using assms(1) by (simp add: wf_grid_def list_all_iff)
  qed
  have "row_live g r \<longleftrightarrow> 1 \<in> set (cells g ! r)"
    unfolding row_live_def by (rule sum_binary_pos [OF bin])
  also have "\<dots> \<longleftrightarrow> (\<exists>c<shape1 g. cells g ! r ! c = 1)"
    using len by (auto simp: in_set_conv_nth)
  finally show ?thesis by auto
qed

lemma live_rows_filter:
  assumes "wf_grid g"
  shows "live_rows g = filter (row_live g) [0..<shape0 g]"
  unfolding live_rows_def
  by (rule filter_cong [OF refl]) (use row_live_iff [OF assms] in simp)

lemma sorted_hd_le_last:
  fixes xs :: "nat list"
  assumes "sorted xs" "xs \<noteq> []"
  shows "hd xs \<le> last xs"
  using assms by (cases xs) auto

lemma live_rows_bounds:
  assumes "has_live g"
  shows "hd (live_rows g) \<le> last (live_rows g) \<and> last (live_rows g) < shape0 g"
proof -
  have ne: "live_rows g \<noteq> []" using assms by (simp add: has_live_def)
  have s: "sorted (live_rows g)" unfolding live_rows_def by (rule sorted_wrt_filter) simp
  have "last (live_rows g) \<in> set (live_rows g)" using ne by simp
  then have "last (live_rows g) < shape0 g" by (simp add: live_rows_def)
  then show ?thesis using sorted_hd_le_last [OF s ne] by simp
qed

lemma live_cols_bounds:
  assumes "has_live g"
  shows "hd (live_cols g) \<le> last (live_cols g) \<and> last (live_cols g) < shape1 g"
proof -
  have "live_rows g \<noteq> []" using assms by (simp add: has_live_def)
  then obtain r where "r \<in> set (live_rows g)" by (cases "live_rows g") auto
  then obtain c where r: "r < shape0 g" and c: "c < shape1 g" and v: "cells g ! r ! c = 1"
    by (auto simp: live_rows_def)
  have "c \<in> set (live_cols g)" using r c v by (auto simp: live_cols_def)
  then have ne: "live_cols g \<noteq> []" by auto
  have s: "sorted (live_cols g)" unfolding live_cols_def by (rule sorted_wrt_filter) simp
  have "last (live_cols g) \<in> set (live_cols g)" using ne by simp
  then have "last (live_cols g) < shape1 g" by (simp add: live_cols_def)
  then show ?thesis using sorted_hd_le_last [OF s ne] by simp
qed

lemma spec_box_valid:
  assumes "has_live g" and "spec_box g = (t, b, m, M)"
  shows "t \<le> b \<and> b < shape0 g \<and> (0 :: int) \<le> int m \<and> int m \<le> int M \<and> int M < int (shape1 g)"
  using live_rows_bounds [OF assms(1)] live_cols_bounds [OF assms(1)] assms(2)
  by (auto simp: spec_box_def)

lemma scan_cols_total:
  assumes "dims g R C" "r < R" "\<forall>c\<in>set cs. c < C"
  shows "\<exists>res. scan_cols g r cs (mn, mx) = Inr res"
  using assms(3)
proof (induction cs arbitrary: mn mx)
  case Nil
  then show ?case by simp
next
  case (Cons c cs)
  have c: "c < C" using Cons.prems by simp
  have rd: "np_getitem2 g (int r) (int c) = Inr (cells g ! r ! c)"
    using np_getitem2_in [OF assms(1,2) c] .
  show ?case using Cons rd by (simp add: bind_e_def)
qed

lemma scan_rows_total:
  assumes "dims g R C" "\<forall>r\<in>set rs. r < R"
  shows "\<exists>res. scan_rows g rs (mn, mx) = Inr res"
  using assms(2)
proof (induction rs arbitrary: mn mx)
  case Nil
  then show ?case by simp
next
  case (Cons r rs)
  have C: "shape1 g = C" using assms(1) by (simp add: dims_def)
  have r: "r < R" using Cons.prems by simp
  obtain a b where ab: "scan_cols g r [0..<shape1 g] (mn, mx) = Inr (a, b)"
    using scan_cols_total [OF assms(1) r, of "[0..<shape1 g]" mn mx] C by auto
  have "\<exists>res. scan_rows g rs (a, b) = Inr res" using Cons by simp
  then show ?case using ab by (auto simp: bind_e_def)
qed

lemma findBoundaries_rows:
  assumes "wf_grid g" "has_live g"
  shows "\<exists>mn mx. findBoundaries g = Inr (hd (live_rows g), last (live_rows g), mn, mx)"
proof -
  let ?R = "shape0 g"
  let ?t = "hd (live_rows g)" and ?b = "last (live_rows g)"
  have len: "length (cells g) = ?R" using assms(1) by (simp add: wf_grid_def)
  have ne: "filter (row_live g) [0..<?R] \<noteq> []"
    using assms by (simp add: has_live_def live_rows_filter)
  have in1: "\<forall>r\<in>set [0..<?R]. r < ?R" and in2: "\<forall>r\<in>set (rev [0..<?R]). r < ?R" by simp_all
  have t: "first_row g [0..<?R] None = Inr (Some ?t)"
    using first_row_find [OF len in1, of None] find_hd_filter [OF ne]
    by (simp add: live_rows_filter [OF assms(1)])
  have b: "first_row g (rev [0..<?R]) None = Inr (Some ?b)"
    using first_row_find [OF len in2, of None] find_rev_last_filter [OF ne]
    by (simp add: live_rows_filter [OF assms(1)])
  have "\<forall>r\<in>set [?t..<?b + 1]. r < ?R" using live_rows_bounds [OF assms(2)] by simp
  from scan_rows_total [OF wf_grid_dims [OF assms(1)] this, of PosInf NegInf]
  obtain mn mx where "scan_rows g [?t..<?b + 1] (PosInf, NegInf) = Inr (mn, mx)" by force
  then show ?thesis using t b by (simp add: findBoundaries_def bind_e_def)
qed

text \<open>
  C5. On the 1-by-1 grid whose only cell is alive, the smallest and the largest live
  column are both 0, but findBoundaries returns -inf for maxCol: the branch that raises
  maxCol is an \<^verbatim>\<open>elif\<close> of the branch that lowers minCol, so the first live cell found
  (and any later one that lowers minCol) never reaches it. The same happens on the 2-by-2
  grid with live cells at (0, 1) and (1, 0), whose largest live column is 1.
\<close>

theorem findBoundaries_maxCol_unset:
  "wf_grid single_cell \<and> has_live single_cell \<and>
   findBoundaries single_cell = Inr (0, 0, Fin 0, NegInf) \<and>
   spec_box single_cell = (0, 0, 0, 0) \<and>
   wf_grid anti_diagonal \<and> has_live anti_diagonal \<and>
   findBoundaries anti_diagonal = Inr (0, 1, Fin 0, NegInf) \<and>
   spec_box anti_diagonal = (0, 1, 0, 1)"
  by code_simp

section \<open>Splitting strings: proofs\<close>

lemma split_where_ne: "split_where P s \<noteq> []"
  by (induction s) (auto split: list.splits)

lemma split_where_prefix:
  assumes "\<not> list_ex P t" "P c"
  shows "split_where P (t @ c # rest) = t # split_where P rest"
  using assms
proof (induction t)
  case Nil
  then show ?case using split_where_ne [of P rest] by (auto split: list.splits)
next
  case (Cons a t)
  then show ?case by simp
qed

lemma split_where_none:
  assumes "\<not> list_ex P t"
  shows "split_where P t = [t]"
  using assms by (induction t) auto

lemma filter_prefix:
  assumes "\<not> list_ex P t" "P c"
  shows "filter P (t @ c # rest) = c # filter P rest"
  using assms by (induction t) auto

lemma filter_none:
  assumes "\<not> list_ex P t"
  shows "filter P t = []"
  using assms by (induction t) auto

section \<open>Writing RLE: proofs\<close>

lemma writeRLE_loop_rest:
  assumes "pos \<le> length gs"
  shows "writeRLE_loop gs pos f line = write_rest (drop pos gs) f line"
  using assms
proof (induction gs pos f line rule: writeRLE_loop.induct)
  case (1 gs pos f line)
  show ?case
  proof (cases "pos = length gs")
    case True
    then show ?thesis by (simp add: writeRLE_loop.simps)
  next
    case False
    then have lt: "pos < length gs" using 1 by simp
    then have d: "drop pos gs = gs ! pos # drop (Suc pos) gs" by (simp add: Cons_nth_drop_Suc)
    show ?thesis
    proof (cases "Suc pos = length gs")
      case True
      then have "drop (Suc pos) gs = []" by simp
      then show ?thesis using True d lt
        by (simp add: writeRLE_loop.simps [of gs pos] split: prod.splits)
    next
      case ns: False
      then have lt2: "Suc pos < length gs" using lt by simp
      then have d2: "drop (Suc pos) gs = gs ! Suc pos # drop (Suc (Suc pos)) gs"
        by (simp add: Cons_nth_drop_Suc)
      have e: "(drop (Suc (Suc pos)) gs = []) = (pos + 2 = length gs)" using lt2 by auto
      show ?thesis
      proof (cases "pos + 2 = length gs \<and> fst (gs ! pos) = CHR ''b''")
        case True
        have "writeRLE_loop gs pos f line = writeRLE_loop gs (pos + 1) f line"
          using True lt by (simp add: writeRLE_loop.simps [of gs pos])
        also have "\<dots> = write_rest (drop (pos + 1) gs) f line"
        proof -
          have a: "\<not> length gs \<le> pos" using lt by simp
          have c: "pos + 1 \<le> length gs" using lt by simp
          show ?thesis using 1(1) [OF a True c] .
        qed
        finally show ?thesis using True d d2 e by simp
      next
        case False
        obtain f1 line1 where w: "write_group (gs ! pos) f line = (f1, line1)"
          by (cases "write_group (gs ! pos) f line")
        have "writeRLE_loop gs pos f line = writeRLE_loop gs (pos + 1) f1 line1"
          using False lt ns w by (auto simp: writeRLE_loop.simps [of gs pos])
        also have "\<dots> = write_rest (drop (pos + 1) gs) f1 line1"
        proof -
          have a: "\<not> length gs \<le> pos" using lt by simp
          have b: "pos + 1 \<noteq> length gs" using ns by simp
          have c: "pos + 1 \<le> length gs" using lt by simp
          show ?thesis using 1(2) [OF a False w [symmetric] b c] .
        qed
        finally show ?thesis using False d d2 e w by auto
      qed
    qed
  qed
qed

lemma write_group_token:
  "write_group grp f line =
     (if length (token grp) + length line > 70 then (f @ line @ [CHR 0x0A], token grp)
      else (f, line @ token grp))"
  by (simp add: write_group_def token_def)

lemma elide_Nil: "elide [] = []"
  by (simp add: elide_def)

lemma elide_single: "elide [grp] = [grp]"
  by (simp add: elide_def)

lemma elide_pair: "elide [grp, grp'] = (if fst grp = CHR ''b'' then [grp'] else [grp, grp'])"
  by (simp add: elide_def)

lemma elide_Cons3:
  "elide (grp # grp' # grp'' # rest) = grp # elide (grp' # grp'' # rest)"
proof -
  let ?ys = "grp' # grp'' # rest"
  have n: "length (grp # ?ys) - 2 = Suc (length ?ys - 2)" by simp
  have nth: "(grp # ?ys) ! (length (grp # ?ys) - 2) = ?ys ! (length ?ys - 2)"
    unfolding n by simp
  have tk: "take (length (grp # ?ys) - 2) (grp # ?ys) = grp # take (length ?ys - 2) ?ys"
    unfolding n by simp
  have l: "last (grp # ?ys) = last ?ys" by simp
  have c: "2 \<le> length (grp # ?ys)" "2 \<le> length ?ys" by simp_all
  show ?thesis
    unfolding elide_def nth tk l using c by simp
qed

lemma join_lines_Cons:
  assumes "ls \<noteq> []"
  shows "join_lines (l # ls) = l @ [CHR 0x0A] @ join_lines ls"
  using assms by (cases ls) simp_all

lemma write_rest_wrapped:
  assumes "xs \<noteq> []" and "\<forall>grp\<in>set xs. length (token grp) \<le> 70"
    and "length (concat cur) \<le> 70"
  shows "\<exists>gss. write_rest xs f (concat cur) = (f @ join_lines (map concat gss), None) \<and>
           gss \<noteq> [] \<and> concat gss = cur @ map token (elide xs) \<and>
           (\<forall>ts\<in>set gss. ts \<noteq> [] \<and> length (concat ts) \<le> 70)"
  using assms
proof (induction xs arbitrary: f cur)
  case Nil
  then show ?case by simp
next
  case (Cons grp xs)
  let ?tok = "token grp"
  have tok: "length ?tok \<le> 70" using Cons.prems by simp
  have tokne: "?tok \<noteq> []" by (simp add: token_def)
  have rest_ok: "\<forall>grp\<in>set xs. length (token grp) \<le> 70" using Cons.prems by simp
  show ?case
  proof (cases "length ?tok + length (concat cur) > 70")
    case brk: True
    then have curne: "cur \<noteq> []" using tok by auto
    have one: "length (concat [?tok]) \<le> 70" using tok by simp
    show ?thesis
    proof (cases xs)
      case Nil
      let ?gss = "[cur, [?tok]]"
      have r: "write_rest (grp # xs) f (concat cur) = (f @ join_lines (map concat ?gss), None)"
        using Nil brk by (simp add: write_group_token)
      have c: "concat ?gss = cur @ map token (elide (grp # xs))"
        using Nil by (simp add: elide_single)
      have ne: "?gss \<noteq> []" by simp
      have a: "\<forall>ts\<in>set ?gss. ts \<noteq> [] \<and> length (concat ts) \<le> 70"
        using curne tok Cons.prems(3) by simp
      from r ne c a show ?thesis by blast
    next
      case (Cons grp' rest)
      show ?thesis
      proof (cases "rest = [] \<and> fst grp = CHR ''b''")
        case True
        have xne: "xs \<noteq> []" using Cons by simp
        from Cons.IH [OF xne rest_ok Cons.prems(3), of f] obtain gss where
          g: "write_rest xs f (concat cur) = (f @ join_lines (map concat gss), None)"
            "gss \<noteq> []" "concat gss = cur @ map token (elide xs)"
            "\<forall>ts\<in>set gss. ts \<noteq> [] \<and> length (concat ts) \<le> 70"
          by blast
        have r: "write_rest (grp # xs) f (concat cur) = write_rest xs f (concat cur)"
          using Cons True by simp
        have e: "elide (grp # xs) = elide xs"
          using Cons True by (simp add: elide_pair elide_single)
        from g show ?thesis unfolding r e by blast
      next
        case False
        have xne: "xs \<noteq> []" using Cons by simp
        from Cons.IH [OF xne rest_ok one, of "f @ concat cur @ [CHR 0x0A]"] obtain gss where
          g: "write_rest xs (f @ concat cur @ [CHR 0x0A]) (concat [?tok]) =
                ((f @ concat cur @ [CHR 0x0A]) @ join_lines (map concat gss), None)"
            "gss \<noteq> []" "concat gss = [?tok] @ map token (elide xs)"
            "\<forall>ts\<in>set gss. ts \<noteq> [] \<and> length (concat ts) \<le> 70"
          by blast
        have run: "write_rest (grp # xs) f (concat cur) =
            write_rest xs (f @ concat cur @ [CHR 0x0A]) (concat [?tok])"
          using Cons False brk by (auto simp: write_group_token)
        have el: "elide (grp # xs) = grp # elide xs"
        proof (cases rest)
          case Nil
          then show ?thesis using Cons False by (simp add: elide_pair elide_single)
        next
          case (Cons grp'' rest')
          then show ?thesis using \<open>xs = grp' # rest\<close> by (simp add: elide_Cons3)
        qed
        let ?gss = "cur # gss"
        have j: "join_lines (map concat ?gss) = concat cur @ [CHR 0x0A] @ join_lines (map concat gss)"
          using g(2) join_lines_Cons [of "map concat gss" "concat cur"] by simp
        have r: "write_rest (grp # xs) f (concat cur) = (f @ join_lines (map concat ?gss), None)"
          unfolding run g(1) j by simp
        have c: "concat ?gss = cur @ map token (elide (grp # xs))"
          using g(3) el by simp
        have ne: "?gss \<noteq> []" by simp
        have a: "\<forall>ts\<in>set ?gss. ts \<noteq> [] \<and> length (concat ts) \<le> 70"
          using curne g(4) Cons.prems(3) by simp
        from r ne c a show ?thesis by blast
      qed
    qed
  next
    case nobrk: False
    let ?cur = "cur @ [?tok]"
    have one: "length (concat ?cur) \<le> 70" using nobrk by simp
    have cat: "concat ?cur = concat cur @ ?tok" by simp
    show ?thesis
    proof (cases xs)
      case Nil
      let ?gss = "[?cur]"
      have r: "write_rest (grp # xs) f (concat cur) = (f @ join_lines (map concat ?gss), None)"
        using Nil nobrk by (simp add: write_group_token)
      have c: "concat ?gss = cur @ map token (elide (grp # xs))"
        using Nil by (simp add: elide_single)
      have ne: "?gss \<noteq> []" by simp
      have a: "\<forall>ts\<in>set ?gss. ts \<noteq> [] \<and> length (concat ts) \<le> 70"
        using one by simp
      from r ne c a show ?thesis by blast
    next
      case (Cons grp' rest)
      have xne: "xs \<noteq> []" using Cons by simp
      show ?thesis
      proof (cases "rest = [] \<and> fst grp = CHR ''b''")
        case True
        from Cons.IH [OF xne rest_ok Cons.prems(3), of f] obtain gss where
          g: "write_rest xs f (concat cur) = (f @ join_lines (map concat gss), None)"
            "gss \<noteq> []" "concat gss = cur @ map token (elide xs)"
            "\<forall>ts\<in>set gss. ts \<noteq> [] \<and> length (concat ts) \<le> 70"
          by blast
        have r: "write_rest (grp # xs) f (concat cur) = write_rest xs f (concat cur)"
          using Cons True by simp
        have e: "elide (grp # xs) = elide xs"
          using Cons True by (simp add: elide_pair elide_single)
        from g show ?thesis unfolding r e by blast
      next
        case False
        from Cons.IH [OF xne rest_ok one, of f] obtain gss where
          g: "write_rest xs f (concat ?cur) = (f @ join_lines (map concat gss), None)"
            "gss \<noteq> []" "concat gss = ?cur @ map token (elide xs)"
            "\<forall>ts\<in>set gss. ts \<noteq> [] \<and> length (concat ts) \<le> 70"
          by blast
        have run: "write_rest (grp # xs) f (concat cur) = write_rest xs f (concat ?cur)"
          unfolding cat using Cons False nobrk by (auto simp: write_group_token)
        have el: "elide (grp # xs) = grp # elide xs"
        proof (cases rest)
          case Nil
          then show ?thesis using Cons False by (simp add: elide_pair elide_single)
        next
          case (Cons grp'' rest')
          then show ?thesis using \<open>xs = grp' # rest\<close> by (simp add: elide_Cons3)
        qed
        have c: "concat gss = cur @ map token (elide (grp # xs))" using g(3) el by simp
        from g(1,2) c g(4) show ?thesis unfolding run by blast
      qed
    qed
  qed
qed

lemma digit_char_digit: "d < 10 \<Longrightarrow> digit_char d \<in> set ''0123456789''"
  unfolding digit_char_def by (rule nth_mem) simp

lemma str_nat_digits: "set (str_nat n) \<subseteq> set ''0123456789''"
proof (induction n rule: str_nat.induct)
  case (1 n)
  show ?case
  proof (cases "n < 10")
    case True
    then show ?thesis using digit_char_digit [of n] by (simp add: str_nat.simps [of n])
  next
    case False
    have "digit_char (n mod 10) \<in> set ''0123456789''" by (rule digit_char_digit) simp
    then show ?thesis using False 1 by (simp add: str_nat.simps [of n])
  qed
qed

lemma str_nat_length:
  assumes "n < 10 ^ k" "0 < k"
  shows "length (str_nat n) \<le> k"
  using assms
proof (induction n arbitrary: k rule: str_nat.induct)
  case (1 n)
  show ?case
  proof (cases "n < 10")
    case True
    then show ?thesis using 1(3) by (simp add: str_nat.simps [of n])
  next
    case False
    obtain j where k: "k = Suc j" using 1(3) by (cases k) auto
    have j: "0 < j" using False 1(2) k by (cases j) auto
    have "n div 10 < 10 ^ j" using 1(2) k by (simp add: less_mult_imp_div_less)
    from 1(1) [OF False this j] show ?thesis using False k by (simp add: str_nat.simps [of n])
  qed
qed

lemma str_nat_ne: "str_nat n \<noteq> []"
  by (simp add: str_nat.simps [of n])

lemma text_lines_plain:
  assumes "CHR 0x0A \<notin> set s"
  shows "text_lines s = [s]"
  unfolding text_lines_def split_char_def
  by (rule split_where_none) (use assms in \<open>simp add: list_ex_iff\<close>)

lemma text_lines_line:
  assumes "CHR 0x0A \<notin> set a"
  shows "text_lines (a @ [CHR 0x0A] @ rest) = a # text_lines rest"
proof -
  have "\<not> list_ex (\<lambda>c. c = CHR 0x0A) a" using assms by (simp add: list_ex_iff)
  from split_where_prefix [OF this, of "CHR 0x0A" rest] show ?thesis
    by (simp add: text_lines_def split_char_def)
qed

lemma text_lines_join:
  assumes "ls \<noteq> []" "\<forall>l\<in>set ls. CHR 0x0A \<notin> set l"
  shows "text_lines (join_lines ls) = ls"
  using assms
proof (induction ls)
  case Nil
  then show ?case by simp
next
  case (Cons l ls)
  show ?case
  proof (cases ls)
    case Nil
    then show ?thesis using Cons.prems text_lines_plain by simp
  next
    case (Cons l' ls')
    then have ne: "ls \<noteq> []" by simp
    have "text_lines (join_lines (l # ls)) = l # text_lines (join_lines ls)"
      unfolding join_lines_Cons [OF ne] using Cons.prems text_lines_line by simp
    then show ?thesis using Cons.IH [OF ne] Cons.prems by simp
  qed
qed

lemma groupby_bounds:
  assumes "(c, n) \<in> set (groupby s)"
  shows "c \<in> set s \<and> 1 \<le> n \<and> n \<le> length s"
  using assms
proof (induction s arbitrary: c n)
  case Nil
  then show ?case by simp
next
  case (Cons x xs)
  show ?case
  proof (cases "groupby xs")
    case Nil
    then show ?thesis using Cons.prems by simp
  next
    case (Cons p rest)
    obtain d m where p: "p = (d, m)" by (cases p)
    have dm: "d \<in> set xs \<and> 1 \<le> m \<and> m \<le> length xs"
      using Cons.IH [of d m] Cons p by simp
    have others: "c' \<in> set xs \<and> 1 \<le> n' \<and> n' \<le> length xs" if "(c', n') \<in> set rest" for c' n'
      using Cons.IH [of c' n'] Cons that by simp
    show ?thesis
    proof (cases "x = d")
      case True
      then have "(c, n) = (d, Suc m) \<or> (c, n) \<in> set rest"
        using Cons.prems Cons p by simp
      then show ?thesis
      proof
        assume "(c, n) = (d, Suc m)"
        then show ?thesis using dm by simp
      next
        assume "(c, n) \<in> set rest"
        from others [OF this] show ?thesis by simp
      qed
    next
      case False
      then have "(c, n) = (x, 1) \<or> (c, n) = (d, m) \<or> (c, n) \<in> set rest"
        using Cons.prems Cons p by simp
      then show ?thesis
      proof (elim disjE)
        assume "(c, n) = (x, 1)"
        then show ?thesis by simp
      next
        assume "(c, n) = (d, m)"
        then show ?thesis using dm by simp
      next
        assume "(c, n) \<in> set rest"
        from others [OF this] show ?thesis by simp
      qed
    qed
  qed
qed

lemma map_e_length:
  assumes "map_e f xs = Inr ys"
  shows "length ys = length xs"
  using assms
proof (induction xs arbitrary: ys)
  case Nil
  then show ?case by simp
next
  case (Cons x xs)
  then show ?case
    by (auto simp: bind_e_def split: sum.splits)
qed

lemma py_range_Inr:
  assumes "py_range a b = Inr cols"
  shows "\<exists>m k. a = Fin m \<and> b = Fin k \<and> cols = [m..k - 1]"
  using assms by (cases a; cases b) simp_all

lemma encodeGrid_rows_ok:
  assumes "encodeGrid_rows g rows bt mn mx acc = Inr gs" "box_inv C mn mx"
    "\<forall>grp\<in>set acc. grp_ok C grp"
  shows "(\<forall>grp\<in>set gs. grp_ok C grp) \<and> length acc + length rows \<le> length gs"
  using assms
proof (induction rows arbitrary: acc)
  case Nil
  then show ?case by simp
next
  case (Cons row rows)
  from Cons.prems(1) obtain cols where
    cols: "py_range mn (add_int mx 1) = Inr cols"
    by (cases "py_range mn (add_int mx 1)") (simp_all add: bind_e_def)
  from Cons.prems(1) cols obtain vals where
    vals: "map_e (\<lambda>col. np_getitem2 g (int row) col) cols = Inr vals"
    by (cases "map_e (\<lambda>col. np_getitem2 g (int row) col) cols") (simp_all add: bind_e_def)
  let ?s = "map (\<lambda>cell. if cell = 1 then CHR ''o'' else CHR ''b'') vals"
  let ?acc = "acc @ groupby ?s @ (if row \<noteq> bt then [(CHR ''$'', 1)] else [(CHR ''!'', 1)])"
  have run: "encodeGrid_rows g rows bt mn mx ?acc = Inr gs"
    using Cons.prems(1) cols vals by (simp add: bind_e_def Let_def)
  from py_range_Inr [OF cols] obtain m k where
    mk: "mn = Fin m" "add_int mx 1 = Fin k" "cols = [m..k - 1]" by blast
  then obtain M where M: "mx = Fin M" "k = M + 1" by (cases mx) auto
  have "length cols = nat (M - m + 1)" using mk M by simp
  also have "\<dots> \<le> C" using Cons.prems(2) mk M by (auto simp: box_inv_def)
  finally have len: "length ?s \<le> C" using map_e_length [OF vals] by simp
  have grp: "grp_ok C grp" if "grp \<in> set (groupby ?s)" for grp
  proof -
    obtain c n where cn: "grp = (c, n)" by (cases grp)
    from groupby_bounds [of c n ?s] that cn
    have "c \<in> set ?s" "1 \<le> n" "n \<le> length ?s" by simp_all
    moreover have "c \<in> set ''ob''" using \<open>c \<in> set ?s\<close> by auto
    ultimately show ?thesis using len cn by (auto simp: grp_ok_def)
  qed
  have acc_ok: "\<forall>grp\<in>set ?acc. grp_ok C grp"
    using Cons.prems(3) grp by (auto simp: grp_ok_def)
  from Cons.IH [OF run Cons.prems(2) acc_ok]
  have r: "\<forall>grp\<in>set gs. grp_ok C grp" and l: "length ?acc + length rows \<le> length gs"
    by simp_all
  have "length acc + 1 \<le> length ?acc" by simp
  then have "length acc + length (row # rows) \<le> length gs" using l by simp
  then show ?case using r by simp
qed

lemma encodeGrid_rows_TypeError:
  assumes "mx = NegInf" "rows \<noteq> []"
  shows "encodeGrid_rows g rows bt mn mx acc = Inl TypeError"
  using assms by (cases rows; cases mn) (simp_all add: bind_e_def)

lemma str_nat_ok:
  assumes "n < 2 ^ 63"
  shows "length (str_nat n) \<le> 19 \<and> CHR 0x0A \<notin> set (str_nat n)"
proof -
  have "n < 10 ^ 19" using assms by simp
  then have "length (str_nat n) \<le> 19" by (rule str_nat_length) simp
  moreover have "CHR 0x0A \<notin> set (str_nat n)" using str_nat_digits [of n] by auto
  ultimately show ?thesis by simp
qed

lemma str_int_ok:
  assumes "\<bar>i\<bar> < 2 ^ 63"
  shows "length (str_int i) \<le> 20 \<and> CHR 0x0A \<notin> set (str_int i)"
proof (cases "i < 0")
  case True
  then have "nat (- i) < 2 ^ 63" using assms by (simp add: nat_less_iff)
  from str_nat_ok [OF this] show ?thesis using True by (simp add: str_int_def)
next
  case False
  then have "nat i < 2 ^ 63" using assms by (simp add: nat_less_iff)
  from str_nat_ok [OF this] show ?thesis using False by (simp add: str_int_def)
qed

lemma token_ok:
  assumes "grp_ok C grp" "C < 2 ^ 63"
  shows "length (token grp) \<le> 70 \<and> CHR 0x0A \<notin> set (token grp)"
proof -
  have "snd grp < 2 ^ 63" using assms by (auto simp: grp_ok_def)
  from str_nat_ok [OF this] have "length (str_nat (snd grp)) \<le> 19"
    "CHR 0x0A \<notin> set (str_nat (snd grp))" by simp_all
  moreover have "fst grp \<noteq> CHR 0x0A" using assms(1) by (auto simp: grp_ok_def)
  ultimately show ?thesis by (simp add: token_def)
qed

lemma header_line_ok:
  assumes "box_inv C mn mx" "C < 2 ^ 63" "t < R" "b < R" "R < 2 ^ 63"
  shows "length (header_line t b mn mx) \<le> 70 \<and> CHR 0x0A \<notin> set (header_line t b mn mx)"
proof -
  let ?w = "str_num (add_int (sub_num mx mn) 1)"
  have w: "length ?w \<le> 20 \<and> CHR 0x0A \<notin> set ?w"
  proof (cases mn)
    case (Fin m)
    show ?thesis
    proof (cases mx)
      case (Fin M)
      have "\<bar>M - m + 1\<bar> < 2 ^ 63"
        using assms(1,2) \<open>mn = Fin m\<close> Fin by (auto simp: box_inv_def)
      from str_int_ok [OF this] show ?thesis using \<open>mn = Fin m\<close> Fin by simp
    next
      case NegInf
      then show ?thesis using Fin by simp
    qed (use assms(1) Fin in \<open>simp_all add: box_inv_def\<close>)
  next
    case PosInf
    then have "mx = NegInf" using assms(1) by (simp add: box_inv_def)
    then show ?thesis using PosInf by simp
  qed (use assms(1) in \<open>simp_all add: box_inv_def\<close>)
  have "\<bar>int b - int t + 1\<bar> < 2 ^ 63" using assms(3,4,5) by auto
  from str_int_ok [OF this] w show ?thesis by (simp add: header_line_def)
qed

lemma writeRLE_header_line: "writeRLE_header t b mn mx = header_line t b mn mx @ [CHR 0x0A]"
  by (simp add: writeRLE_header_def header_line_def)

lemma map_e_Inr:
  assumes "\<forall>x\<in>set xs. f x = Inr (h x)"
  shows "map_e f xs = Inr (map h xs)"
  using assms by (induction xs) (simp_all add: bind_e_def)

lemma encodeGrid_rows_groups:
  assumes "dims g R C" "\<forall>row\<in>set rows. row < R" "0 \<le> m" "M < int C"
  shows "encodeGrid_rows g rows bt (Fin m) (Fin M) acc =
           Inr (acc @ concat (map (row_groups g bt m M) rows))"
  using assms(2)
proof (induction rows arbitrary: acc)
  case Nil
  then show ?case by simp
next
  case (Cons row rows)
  have row: "row < R" using Cons.prems by simp
  have rd: "\<forall>col\<in>set [m..M]. np_getitem2 g (int row) col = Inr (cells g ! row ! nat col)"
  proof
    fix col assume "col \<in> set [m..M]"
    then have c: "nat col < C" and e: "int (nat col) = col" using assms(3,4) by auto
    from np_getitem2_in [OF assms(1) row c] show "np_getitem2 g (int row) col = Inr (cells g ! row ! nat col)"
      unfolding e .
  qed
  have vals: "map_e (\<lambda>col. np_getitem2 g (int row) col) [m..M] =
      Inr (map (\<lambda>col. cells g ! row ! nat col) [m..M])"
    by (rule map_e_Inr [OF rd])
  have "encodeGrid_rows g (row # rows) bt (Fin m) (Fin M) acc =
      encodeGrid_rows g rows bt (Fin m) (Fin M) (acc @ row_groups g bt m M row)"
    using vals by (simp add: bind_e_def Let_def row_groups_def row_string_def comp_def)
  also have "\<dots> = Inr ((acc @ row_groups g bt m M row) @ concat (map (row_groups g bt m M) rows))"
    using Cons by simp
  finally show ?case by simp
qed

lemma writeRLE_box_written:
  assumes wf: "wf_grid g" and sz: "index_sized g"
    and box: "t \<le> b" "b < shape0 g" "0 \<le> m" "m \<le> M" "M < int (shape1 g)"
  obtains gs gss where
    "length (header_line t b (Fin m) (Fin M)) \<le> 70"
    "CHR 0x0A \<notin> set (header_line t b (Fin m) (Fin M))"
    "encodeGrid g t b (Fin m) (Fin M) = Inr gs"
    "gs = concat (map (row_groups g b m M) [t..<b + 1])"
    "concat gss = map token (elide gs)" "gss \<noteq> []"
    "\<forall>ts\<in>set gss. ts \<noteq> [] \<and> length (concat ts) \<le> 70 \<and> CHR 0x0A \<notin> set (concat ts)"
    "writeRLE_box g t b (Fin m) (Fin M) =
       (writeRLE_header t b (Fin m) (Fin M) @ join_lines (map concat gss), None)"
proof -
  let ?R = "shape0 g" and ?C = "shape1 g"
  let ?hd = "writeRLE_header t b (Fin m) (Fin M)"
  have R: "?R < 2 ^ 63" and C: "?C < 2 ^ 63" using sz by (simp_all add: index_sized_def)
  have t: "t < ?R" using box(1,2) by simp
  have inv: "box_inv ?C (Fin m) (Fin M)" using box(3,4,5) by (simp add: box_inv_def)
  note hdr = header_line_ok [OF inv C t box(2) R]
  define rows where "rows = [t..<b + 1]"
  have rne: "rows \<noteq> []" and rin: "\<forall>row\<in>set rows. row < ?R"
    using box(1,2) by (simp_all add: rows_def)
  define gs where "gs = concat (map (row_groups g b m M) rows)"
  have enc': "encodeGrid_rows g rows b (Fin m) (Fin M) [] = Inr gs"
    unfolding gs_def
    using encodeGrid_rows_groups [OF wf_grid_dims [OF wf] rin box(3,5), of b "[]"] by simp
  have enc: "encodeGrid g t b (Fin m) (Fin M) = Inr gs"
    using enc' by (simp add: encodeGrid_def rows_def)
  have eo: "(\<forall>grp\<in>set gs. grp_ok ?C grp) \<and> length ([] :: (char \<times> nat) list) + length rows \<le> length gs"
    by (rule encodeGrid_rows_ok [OF enc' inv]) simp
  have ok: "\<forall>grp\<in>set gs. grp_ok ?C grp" using eo by (rule conjunct1)
  have gne: "gs \<noteq> []" using eo rne by auto
  have toks: "\<forall>grp\<in>set gs. length (token grp) \<le> 70" using ok token_ok [OF _ C] by blast
  have nonl: "\<forall>grp\<in>set gs. CHR 0x0A \<notin> set (token grp)" using ok token_ok [OF _ C] by blast
  have cur: "length (concat ([] :: string list)) \<le> 70" by simp
  from write_rest_wrapped [OF gne toks cur, of ?hd] obtain gss where
    g1: "write_rest gs ?hd (concat []) = (?hd @ join_lines (map concat gss), None)" and
    g2: "gss \<noteq> []" and g3: "concat gss = [] @ map token (elide gs)" and
    g4: "\<forall>ts\<in>set gss. ts \<noteq> [] \<and> length (concat ts) \<le> 70"
    by blast
  have g3': "concat gss = map token (elide gs)" using g3 by simp
  have sub: "set (elide gs) \<subseteq> set gs"
    using gne last_in_set [of gs] by (auto simp: elide_def dest: in_set_takeD)
  have tk: "\<forall>tok\<in>set (concat gss). CHR 0x0A \<notin> set tok"
    unfolding g3' using nonl sub by auto
  have nl: "CHR 0x0A \<notin> set (concat ts)" if "ts \<in> set gss" for ts
  proof -
    have "set ts \<subseteq> set (concat gss)" using that by auto
    then show ?thesis using tk by auto
  qed
  have all: "\<forall>ts\<in>set gss. ts \<noteq> [] \<and> length (concat ts) \<le> 70 \<and> CHR 0x0A \<notin> set (concat ts)"
    using g4 nl by simp
  have w: "writeRLE_box g t b (Fin m) (Fin M) = (?hd @ join_lines (map concat gss), None)"
    using enc g1 by (simp add: writeRLE_box_def writeRLE_loop_rest)
  have gs: "gs = concat (map (row_groups g b m M) [t..<b + 1])"
    by (simp only: gs_def rows_def)
  show ?thesis using hdr enc gs g3' g2 all w by (intro that [of gs gss]) simp_all
qed

text \<open>
  C6. For a well-formed grid of a size that numpy can hold and a box inside it (rows
  \<open>t\<close> to \<open>b\<close>, columns \<open>m\<close> to \<open>M\<close>; the bounding box of a grid with a live cell
  is one, by \<open>spec_box_valid\<close>), the part of writeRLE that follows the call of findBoundaries raises nothing and
  writes the header line followed by lines each of which is the concatenation of whole
  tokens: the lines after the header are the token texts of the groups of encodeGrid
  (without a dead run in the last place before the terminator), cut into non-empty
  consecutive pieces. Every physical line, the header too, has at most 70 characters;
  hence a token that would take a line beyond 70 characters stands on the next line.
\<close>

theorem writeRLE_lines_wrapped:
  assumes "wf_grid g" and "index_sized g"
    and "t \<le> b" and "b < shape0 g" and "0 \<le> m" and "m \<le> M" and "M < int (shape1 g)"
  shows "\<exists>gs gss. encodeGrid g t b (Fin m) (Fin M) = Inr gs \<and>
           concat gss = map token (elide gs) \<and> [] \<notin> set gss \<and>
           snd (writeRLE_box g t b (Fin m) (Fin M)) = None \<and>
           text_lines (fst (writeRLE_box g t b (Fin m) (Fin M))) =
             header_line t b (Fin m) (Fin M) # map concat gss \<and>
           (\<forall>l\<in>set (text_lines (fst (writeRLE_box g t b (Fin m) (Fin M)))). length l \<le> 70)"
proof -
  from assms obtain gs gss where
    h1: "length (header_line t b (Fin m) (Fin M)) \<le> 70" and
    h2: "CHR 0x0A \<notin> set (header_line t b (Fin m) (Fin M))" and
    enc: "encodeGrid g t b (Fin m) (Fin M) = Inr gs" and
    cat: "concat gss = map token (elide gs)" and ne: "gss \<noteq> []" and
    all: "\<forall>ts\<in>set gss. ts \<noteq> [] \<and> length (concat ts) \<le> 70 \<and> CHR 0x0A \<notin> set (concat ts)" and
    w: "writeRLE_box g t b (Fin m) (Fin M) =
       (writeRLE_header t b (Fin m) (Fin M) @ join_lines (map concat gss), None)"
    by (rule writeRLE_box_written)
  let ?ls = "map concat gss"
  have lne: "?ls \<noteq> []" using ne by simp
  have nl: "\<forall>l\<in>set ?ls. CHR 0x0A \<notin> set l" using all by simp
  have "fst (writeRLE_box g t b (Fin m) (Fin M)) =
      header_line t b (Fin m) (Fin M) @ [CHR 0x0A] @ join_lines ?ls"
    using w by (simp add: writeRLE_header_line)
  then have tl: "text_lines (fst (writeRLE_box g t b (Fin m) (Fin M))) =
      header_line t b (Fin m) (Fin M) # ?ls"
    using text_lines_line [OF h2, of "join_lines ?ls"] text_lines_join [OF lne nl] by simp
  have short: "\<forall>l\<in>set (text_lines (fst (writeRLE_box g t b (Fin m) (Fin M)))). length l \<le> 70"
    unfolding tl using h1 all by simp
  have e: "[] \<notin> set gss" using all by blast
  have s: "snd (writeRLE_box g t b (Fin m) (Fin M)) = None" using w by simp
  from enc cat e s tl short show ?thesis by blast
qed

lemma wide_row_ok: "wf_grid wide_row \<and> index_sized wide_row"
proof -
  have "wf_grid wide_row" by code_simp
  moreover have "index_sized wide_row" by (simp add: index_sized_def wide_row_def)
  ultimately show ?thesis by simp
qed

lemma wide_row_lines:
  "text_lines (fst (writeRLE_box wide_row 0 0 (Fin 0) (Fin 78))) =
     [''x = 79, y = 1'',
      ''obobobobobobobobobobobobobobobobobobobobobobobobobobobobobobobobobobob'',
      ''obobobobo!'']"
  by code_simp

theorem writeRLE_lines_wrapped_witness:
  "wf_grid wide_row \<and> index_sized wide_row \<and> spec_box wide_row = (0, 0, 0, 78) \<and>
   (0 :: nat) \<le> 0 \<and> 0 < shape0 wide_row \<and> (0 :: int) \<le> 0 \<and> (0 :: int) \<le> 78 \<and>
   78 < int (shape1 wide_row) \<and>
   snd (writeRLE_box wide_row 0 0 (Fin 0) (Fin 78)) = None \<and>
   list_all (\<lambda>l. length l \<le> 70) (text_lines (fst (writeRLE_box wide_row 0 0 (Fin 0) (Fin 78)))) \<and>
   map length (text_lines (fst (writeRLE_box wide_row 0 0 (Fin 0) (Fin 78)))) = [13, 70, 10]"
proof -
  have w: "wf_grid wide_row" and i: "index_sized wide_row" using wide_row_ok by simp_all
  have sb: "spec_box wide_row = (0, 0, 0, 78)" by code_simp
  have b: "(0 :: nat) \<le> 0" "0 < shape0 wide_row" "(0 :: int) \<le> 0" "(0 :: int) \<le> 78"
    "78 < int (shape1 wide_row)"
    by (simp_all add: wide_row_def)
  note t = writeRLE_lines_wrapped [OF w i b]
  have n: "snd (writeRLE_box wide_row 0 0 (Fin 0) (Fin 78)) = None" using t by blast
  have "\<forall>l\<in>set (text_lines (fst (writeRLE_box wide_row 0 0 (Fin 0) (Fin 78)))). length l \<le> 70"
    using t by blast
  then have a: "list_all (\<lambda>l. length l \<le> 70)
      (text_lines (fst (writeRLE_box wide_row 0 0 (Fin 0) (Fin 78))))"
    by (simp only: list_all_iff)
  have m: "map length (text_lines (fst (writeRLE_box wide_row 0 0 (Fin 0) (Fin 78)))) = [13, 70, 10]"
    unfolding wide_row_lines by simp
  from w i sb b n a m show ?thesis by (intro conjI)
qed

section \<open>Reading RLE: proofs\<close>

lemma py_int_error: "py_int s = Inl e \<Longrightarrow> e = ValueError"
  by (auto simp: py_int_def Let_def split: list.splits if_splits option.splits prod.splits)

lemma curCt_count_of: "curCt s = Inr (count_of s)"
proof (cases "py_int s")
  case (Inl e)
  then have "e = ValueError" by (rule py_int_error)
  then show ?thesis using Inl by (simp add: curCt_def count_of_def)
next
  case (Inr n)
  then show ?thesis by (simp add: curCt_def count_of_def)
qed

lemma run_cells_total:
  "run_cells tc = Inr (replicate (nat (count_of (snd tc))) (tag_cell (fst tc)))"
  by (simp add: run_cells_def curCt_count_of bind_e_def tag_cell_def)

lemma map_e_total:
  assumes "\<And>x. f x = Inr (g x)"
  shows "map_e f xs = Inr (map g xs)"
  by (induction xs) (simp_all add: assms bind_e_def)

lemma gridLine_of_expand: "gridLine_of chunk = Inr (expand chunk)"
  unfolding gridLine_of_def expand_def Let_def
  by (simp add: map_e_total [of run_cells, OF run_cells_total] bind_e_def)

lemma parseRLE_chunks_map:
  "parseRLE_chunks chunks (Some x) grid = Inr (grid @ map (\<lambda>chunk. fill_line x (expand chunk)) chunks)"
  by (induction chunks arbitrary: grid) (simp_all add: gridLine_of_expand bind_e_def)

lemma expand_run:
  assumes "\<not> list_ex is_tag t" "is_tag tag"
  shows "expand (t @ tag # rest) = replicate (nat (count_of t)) (tag_cell tag) @ expand rest"
  unfolding expand_def split_where_prefix [OF assms] filter_prefix [OF assms] by simp

lemma expand_no_tag:
  assumes "\<not> list_ex is_tag junk"
  shows "expand junk = []"
  using assms by (simp add: expand_def filter_none)






lemma length_split_where: "length (split_where P s) = Suc (length (filter P s))"
proof (induction s)
  case Nil
  then show ?case by simp
next
  case (Cons c s)
  then show ?case using split_where_ne [of P s] by (cases "split_where P s") auto
qed

lemma fill_line_append: "fill_line x l = l @ replicate (nat x - length l) 0"
proof (cases "int (length l) = x")
  case True
  then show ?thesis by (auto simp: fill_line_def)
next
  case False
  have "nat (x - int (length l)) = nat x - length l" by linarith
  then show ?thesis using False by (simp add: fill_line_def)
qed

lemma np_array_rect:
  assumes "rows \<noteq> []" "list_all (\<lambda>q. length q = length (hd rows)) rows"
  shows "np_array rows = Inr \<lparr>shape0 = length rows, shape1 = length (hd rows), cells = rows\<rparr>"
  using assms by (cases rows) (simp_all add: np_array_def)

text \<open>
  C4, as the claim states it, fails: with the header \<open>x = 3, y = 2\<close>, the body
  \<open>5o$5o!\<close> (rows of 5 cells) and the body \<open>3o!\<close> (one row) are both decoded without
  any error, into a 2-by-5 and a 1-by-3 grid.
\<close>

theorem parseRLE_mismatch_counterexample:
  "parseRLE [''x = 3, y = 2'', ''5o$5o!''] =
     Inr \<lparr>shape0 = 2, shape1 = 5, cells = [[1, 1, 1, 1, 1], [1, 1, 1, 1, 1]]\<rparr> \<and>
   parseRLE [''x = 3, y = 2'', ''3o!''] = Inr \<lparr>shape0 = 1, shape1 = 3, cells = [[1, 1, 1]]\<rparr>"
  by code_simp

text \<open>
  C4, amended. parseRLE does not compare what it decodes with the header. Once the lines
  are read, with body text \<open>body\<close> and declared width \<open>x\<close>, the rows are the chunks of
  the body between \<open>$\<close> signs, one row per chunk whatever the declared height; a row
  shorter than \<open>x\<close> is filled with dead cells up to \<open>x\<close> and a longer row is kept whole.
  When these rows have one length, they are returned as the grid; the only failure left
  is that of the array construction on rows of different lengths.
\<close>

theorem parseRLE_no_dimension_check:
  assumes "parseRLE_lines (map strip ls) ([], None, None) = Inr (body, Some x, yvalue)"
  shows "parseRLE ls = np_array (map (\<lambda>chunk. fill_line x (expand chunk)) (split_char (CHR ''$'') body)) \<and>
         length (split_char (CHR ''$'') body) = Suc (length (filter (\<lambda>c. c = CHR ''$'') body)) \<and>
         (\<forall>chunk. fill_line x (expand chunk) = expand chunk @ replicate (nat x - length (expand chunk)) 0) \<and>
         (list_all (\<lambda>chunk. length (fill_line x (expand chunk)) =
                             length (fill_line x (expand (hd (split_char (CHR ''$'') body)))))
            (split_char (CHR ''$'') body) \<longrightarrow>
          parseRLE ls =
            Inr \<lparr>shape0 = length (split_char (CHR ''$'') body),
                 shape1 = length (fill_line x (expand (hd (split_char (CHR ''$'') body)))),
                 cells = map (\<lambda>chunk. fill_line x (expand chunk)) (split_char (CHR ''$'') body)\<rparr>)"
proof -
  let ?chunks = "split_char (CHR ''$'') body"
  let ?rows = "map (\<lambda>chunk. fill_line x (expand chunk)) ?chunks"
  have run: "parseRLE ls = np_array ?rows"
    using assms by (simp add: parseRLE_def bind_e_def parseRLE_chunks_map)
  have n: "length ?chunks = Suc (length (filter (\<lambda>c. c = CHR ''$'') body))"
    by (simp add: split_char_def length_split_where)
  have ne: "?chunks \<noteq> []" by (simp add: split_char_def split_where_ne)
  then have ne': "?rows \<noteq> []" by simp
  have hd: "hd ?rows = fill_line x (expand (hd ?chunks))" using ne by (simp add: hd_map)
  have rect: "np_array ?rows =
      Inr \<lparr>shape0 = length ?chunks, shape1 = length (fill_line x (expand (hd ?chunks))), cells = ?rows\<rparr>"
    if "list_all (\<lambda>chunk. length (fill_line x (expand chunk)) =
                             length (fill_line x (expand (hd ?chunks)))) ?chunks"
  proof -
    have "list_all (\<lambda>q. length q = length (hd ?rows)) ?rows"
      unfolding hd using that by (simp add: list_all_iff)
    from np_array_rect [OF ne' this] show ?thesis unfolding hd by simp
  qed
  show ?thesis using run n rect fill_line_append by simp
qed

lemma parseRLE_lines_example:
  "parseRLE_lines (map strip [''x = 3, y = 2'', ''5o$5o!'']) ([], None, None) =
     Inr (''5o$5o'', Some 3, Some 2)"
  by code_simp

lemma expand_example: "fill_line 3 (expand ''5o'') = [1, 1, 1, 1, 1]"
  by code_simp

lemma split_example: "split_char (CHR ''$'') ''5o$5o'' = [''5o'', ''5o'']"
  by code_simp

theorem parseRLE_no_dimension_check_witness:
  "parseRLE_lines (map strip [''x = 3, y = 2'', ''5o$5o!'']) ([], None, None) =
     Inr (''5o$5o'', Some 3, Some 2) \<and>
   list_all (\<lambda>chunk. length (fill_line 3 (expand chunk)) =
                       length (fill_line 3 (expand (hd (split_char (CHR ''$'') ''5o$5o'')))))
     (split_char (CHR ''$'') ''5o$5o'') \<and>
   length (split_char (CHR ''$'') ''5o$5o'') = 2 \<and>
   fill_line 3 (expand ''5o'') = expand ''5o'' @ replicate (3 - length (expand ''5o'')) 0 \<and>
   parseRLE [''x = 3, y = 2'', ''5o$5o!''] =
     Inr \<lparr>shape0 = 2, shape1 = 5, cells = [[1, 1, 1, 1, 1], [1, 1, 1, 1, 1]]\<rparr>"
proof -
  note t = parseRLE_no_dimension_check [OF parseRLE_lines_example]
  have la: "list_all (\<lambda>chunk. length (fill_line 3 (expand chunk)) =
                       length (fill_line 3 (expand (hd (split_char (CHR ''$'') ''5o$5o'')))))
     (split_char (CHR ''$'') ''5o$5o'')"
    by (simp add: split_example expand_example)
  have n: "length (split_char (CHR ''$'') ''5o$5o'') = 2" by (simp add: split_example)
  have f: "fill_line 3 (expand ''5o'') = expand ''5o'' @ replicate (3 - length (expand ''5o'')) 0"
    using t [THEN conjunct2, THEN conjunct2, THEN conjunct1, rule_format, of "''5o''"] by simp
  from t la have "parseRLE [''x = 3, y = 2'', ''5o$5o!''] =
      Inr \<lparr>shape0 = length (split_char (CHR ''$'') ''5o$5o''),
           shape1 = length (fill_line 3 (expand (hd (split_char (CHR ''$'') ''5o$5o'')))),
           cells = map (\<lambda>chunk. fill_line 3 (expand chunk)) (split_char (CHR ''$'') ''5o$5o'')\<rparr>"
    by blast
  then have p: "parseRLE [''x = 3, y = 2'', ''5o$5o!''] =
      Inr \<lparr>shape0 = 2, shape1 = 5, cells = [[1, 1, 1, 1, 1], [1, 1, 1, 1, 1]]\<rparr>"
    by (simp add: split_example expand_example)
  from parseRLE_lines_example la n f p show ?thesis by (intro conjI)
qed





section \<open>Writing, then reading\<close>

lemma digit_char_val:
  assumes "d < 10"
  shows "digit_val (digit_char d) = d \<and> is_digit (digit_char d)"
proof -
  have "d = 0 \<or> d = 1 \<or> d = 2 \<or> d = 3 \<or> d = 4 \<or> d = 5 \<or> d = 6 \<or> d = 7 \<or> d = 8 \<or> d = 9"
    using assms by presburger
  then show ?thesis
    by (elim disjE) (simp_all add: digit_char_def digit_val_def is_digit_def)
qed

lemma str_nat_all_digits: "list_all is_digit (str_nat n)"
proof -
  have "\<forall>c\<in>set (str_nat n). is_digit c"
    unfolding is_digit_def using str_nat_digits [of n] by blast
  then show ?thesis by (simp only: list_all_iff)
qed

lemma digits_value_snoc: "digits_value (s @ [c]) = digits_value s * 10 + digit_val c"
  by (simp add: digits_value_def)

lemma digits_value_str_nat: "digits_value (str_nat n) = n"
proof (induction n rule: str_nat.induct)
  case (1 n)
  show ?case
  proof (cases "n < 10")
    case True
    then show ?thesis using digit_char_val [of n]
      by (simp add: str_nat.simps [of n] digits_value_def)
  next
    case False
    have "digit_val (digit_char (n mod 10)) = n mod 10" using digit_char_val [of "n mod 10"] by simp
    then show ?thesis using False 1
      by (simp add: str_nat.simps [of n] digits_value_snoc)
  qed
qed

lemma digits_acc_all:
  assumes "list_all is_digit s"
  shows "digits_acc s acc = Some (foldl (\<lambda>a c. a * 10 + digit_val c) acc s)"
  using assms by (induction s arbitrary: acc) simp_all

lemma parse_digits_all:
  assumes "list_all is_digit s" "s \<noteq> []"
  shows "parse_digits s = Some (digits_value s)"
  using assms by (cases s) (simp_all add: parse_digits_def digits_acc_all digits_value_def)

lemma strip_id:
  assumes "s \<noteq> []" "\<not> is_space (hd s)" "\<not> is_space (last s)"
  shows "strip s = s"
proof -
  have a: "dropWhile is_space s = s" using assms by (cases s) simp_all
  have "rev s \<noteq> []" "\<not> is_space (hd (rev s))" using assms by (simp_all add: hd_rev)
  then have "dropWhile is_space (rev s) = rev s" by (cases "rev s") simp_all
  then show ?thesis by (simp add: strip_def a)
qed

lemma digit_not_space: "is_digit c \<Longrightarrow> \<not> is_space c \<and> c \<noteq> CHR ''-'' \<and> c \<noteq> CHR ''+''"
  by (auto simp: is_digit_def is_space_def)

lemma py_int_digits:
  assumes "list_all is_digit s" "s \<noteq> []"
  shows "py_int s = Inr (int (digits_value s))"
proof -
  have h: "is_digit (hd s)" "is_digit (last s)"
    using assms by (simp_all add: list_all_iff)
  have st: "strip s = s" using strip_id [OF assms(2)] h digit_not_space by blast
  obtain c cs where s: "s = c # cs" using assms(2) by (cases s) auto
  have c: "c \<noteq> CHR ''-''" "c \<noteq> CHR ''+''" using h(1) s digit_not_space by auto
  have st': "strip (c # cs) = c # cs" using st s by simp
  have pd: "parse_digits (c # cs) = Some (digits_value (c # cs))"
    using parse_digits_all [OF assms] s by simp
  show ?thesis
    unfolding s py_int_def st' using c pd by simp
qed

lemma py_int_str_nat: "py_int (str_nat n) = Inr (int n)"
  using py_int_digits [OF str_nat_all_digits str_nat_ne] by (simp add: digits_value_str_nat)

lemma strip_space: "strip (CHR '' '' # s) = strip s"
  by (simp add: strip_def is_space_def)

lemma py_int_space_str_nat: "py_int (CHR '' '' # str_nat n) = Inr (int n)"
  using py_int_str_nat [of n] by (simp add: py_int_def strip_space)

lemma count_of_empty: "count_of [] = 1"
  by (simp add: count_of_def py_int_def strip_def parse_digits_def)

lemma count_of_str_nat: "count_of (str_nat n) = int n"
  by (simp add: count_of_def py_int_str_nat)

lemma digit_not_tag: "is_digit c \<Longrightarrow> \<not> is_tag c \<and> c \<noteq> CHR ''$''"
  by (auto simp: is_digit_def is_tag_def)

lemma str_nat_no_tag: "\<not> list_ex is_tag (str_nat n)"
  using str_nat_all_digits [of n] digit_not_tag by (auto simp: list_ex_iff list_all_iff)

lemma str_nat_no_dollar: "CHR ''$'' \<notin> set (str_nat n)"
  using str_nat_all_digits [of n] digit_not_tag by (auto simp: list_all_iff)

lemma expand_token:
  assumes "is_tag c" "1 \<le> n"
  shows "expand (token (c, n) @ rest) = replicate n (tag_cell c) @ expand rest"
proof (cases "n = 1")
  case True
  have "\<not> list_ex is_tag []" by simp
  from expand_run [OF this assms(1), of rest] show ?thesis
    using True by (simp add: token_def count_of_empty)
next
  case False
  from expand_run [OF str_nat_no_tag assms(1), of n rest] show ?thesis
    using False by (simp add: token_def count_of_str_nat)
qed

lemma expand_runs_text:
  assumes "\<forall>grp\<in>set gl. is_tag (fst grp) \<and> 1 \<le> snd grp"
  shows "expand (runs_text gl) = run_cells_of gl"
  using assms
proof (induction gl)
  case Nil
  then show ?case by (simp add: runs_text_def run_cells_of_def expand_no_tag)
next
  case (Cons grp gl)
  obtain c n where grp: "grp = (c, n)" by (cases grp)
  have c: "is_tag c" "1 \<le> n" using Cons.prems grp by simp_all
  have "expand (runs_text (grp # gl)) = expand (token (c, n) @ runs_text gl)"
    by (simp add: runs_text_def grp)
  also have "\<dots> = replicate n (tag_cell c) @ expand (runs_text gl)"
    by (rule expand_token [OF c])
  also have "\<dots> = run_cells_of (grp # gl)"
    using Cons by (simp add: run_cells_of_def grp)
  finally show ?case .
qed

lemma groupby_replicate:
  "concat (map (\<lambda>grp. replicate (snd grp) (fst grp)) (groupby s)) = s"
proof (induction s)
  case Nil
  then show ?case by simp
next
  case (Cons x xs)
  show ?case
  proof (cases "groupby xs")
    case Nil
    then show ?thesis using Cons by simp
  next
    case (Cons p rest)
    then show ?thesis using Cons.IH by (cases p) auto
  qed
qed

lemma run_cells_of_groupby: "run_cells_of (groupby s) = map tag_cell s"
proof -
  have "run_cells_of (groupby s) =
      map tag_cell (concat (map (\<lambda>grp. replicate (snd grp) (fst grp)) (groupby s)))"
    by (simp add: run_cells_of_def map_concat comp_def)
  then show ?thesis by (simp only: groupby_replicate)
qed

lemma run_cells_of_trim:
  "\<exists>k. run_cells_of gl = run_cells_of (trim_dead gl) @ replicate k 0"
proof (cases "gl \<noteq> [] \<and> fst (last gl) = CHR ''b''")
  case True
  then have "gl = butlast gl @ [last gl]" by simp
  then have "run_cells_of gl =
      run_cells_of (butlast gl) @ replicate (snd (last gl)) (tag_cell (fst (last gl)))"
    unfolding run_cells_of_def by (metis (no_types, lifting) concat.simps concat_append
        list.simps(8) list.simps(9) map_append self_append_conv)
  then show ?thesis using True by (auto simp: trim_dead_def tag_cell_def)
next
  case False
  then have "run_cells_of gl = run_cells_of (trim_dead gl) @ replicate 0 0"
    by (auto simp: trim_dead_def)
  then show ?thesis by blast
qed

lemma fill_line_trim:
  assumes "int (length (run_cells_of gl)) = W"
  shows "fill_line W (run_cells_of (trim_dead gl)) = run_cells_of gl"
proof -
  obtain k where k: "run_cells_of gl = run_cells_of (trim_dead gl) @ replicate k 0"
    using run_cells_of_trim by blast
  then have "length (run_cells_of gl) = length (run_cells_of (trim_dead gl)) + k"
    by (metis length_append length_replicate)
  then have "nat W - length (run_cells_of (trim_dead gl)) = k" using assms by auto
  then show ?thesis using k by (simp add: fill_line_append)
qed

lemma fill_line_full:
  assumes "int (length l) = W"
  shows "fill_line W l = l"
  using assms by (simp add: fill_line_def)

lemma row_string_cells:
  assumes "wf_grid g" "r < shape0 g" "0 \<le> m" "M < int (shape1 g)"
  shows "map tag_cell (row_string g r m M) = map (\<lambda>c. cells g ! r ! nat c) [m..M]"
proof -
  have "tag_cell (if cells g ! r ! nat c = 1 then CHR ''o'' else CHR ''b'') = cells g ! r ! nat c"
    if "c \<in> set [m..M]" for c
  proof -
    have "nat c < shape1 g" using that assms(3,4) by auto
    from wf_grid_cell [OF assms(1,2) this] show ?thesis by (auto simp: tag_cell_def)
  qed
  then show ?thesis by (simp add: row_string_def)
qed

lemma elide_snoc2:
  "elide (xs @ [a, z]) = (if fst a = CHR ''b'' then xs @ [z] else xs @ [a, z])"
proof -
  have n: "length (xs @ [a, z]) - 2 = length xs" by simp
  have "(xs @ [a, z]) ! length xs = a" by (simp add: nth_append)
  moreover have "take (length xs) (xs @ [a, z]) = xs" by simp
  moreover have "last (xs @ [a, z]) = z" by simp
  moreover have "2 \<le> length (xs @ [a, z])" by simp
  ultimately show ?thesis unfolding elide_def n by simp
qed

lemma elide_trim:
  assumes "gl \<noteq> []" "fst z \<noteq> CHR ''b''"
  shows "elide (pre @ gl @ [z]) = pre @ trim_dead gl @ [z]"
proof -
  have gl: "gl = butlast gl @ [last gl]" using assms(1) by simp
  have "pre @ gl @ [z] = (pre @ butlast gl) @ [last gl, z]"
    using gl by (metis append.assoc append_Cons append_Nil)
  then have "elide (pre @ gl @ [z]) =
      (if fst (last gl) = CHR ''b'' then (pre @ butlast gl) @ [z]
       else (pre @ butlast gl) @ [last gl, z])"
    by (simp only: elide_snoc2)
  also have "\<dots> = pre @ trim_dead gl @ [z]"
  proof (cases "fst (last gl) = CHR ''b''")
    case True
    then show ?thesis using assms(1) by (simp add: trim_dead_def)
  next
    case False
    have "(pre @ butlast gl) @ [last gl, z] = pre @ gl @ [z]"
      using gl by (metis append.assoc append_Cons append_Nil)
    then show ?thesis using False assms(1) by (simp add: trim_dead_def)
  qed
  finally show ?thesis .
qed

lemma rows_groups_split:
  assumes "t \<le> b"
  shows "concat (map (row_groups g b m M) [t..<b + 1]) =
           concat (map (\<lambda>r. groupby (row_string g r m M) @ [(CHR ''$'', 1)]) [t..<b]) @
           groupby (row_string g b m M) @ [(CHR ''!'', 1)]"
proof -
  have u: "[t..<b + 1] = [t..<b] @ [b]" using assms by simp
  have h: "map (row_groups g b m M) [t..<b] =
      map (\<lambda>r. groupby (row_string g r m M) @ [(CHR ''$'', 1)]) [t..<b]"
    by (rule map_cong [OF refl]) (simp add: row_groups_def)
  show ?thesis unfolding u map_append concat_append h by (simp add: row_groups_def)
qed

lemma token_dollar: "token (CHR ''$'', Suc 0) = ''$''" and token_bang: "token (CHR ''!'', Suc 0) = ''!''"
  by (simp_all add: token_def)

lemma runs_text_rows:
  "concat (map token (concat (map (\<lambda>r. G r @ [(CHR ''$'', 1)]) rs))) =
     concat (map (\<lambda>r. runs_text (G r) @ ''$'') rs)"
  by (induction rs) (simp_all add: runs_text_def token_dollar)

lemma runs_text_no_dollar:
  assumes "\<forall>grp\<in>set gl. is_tag (fst grp)"
  shows "CHR ''$'' \<notin> set (runs_text gl)"
proof -
  have "CHR ''$'' \<notin> set (token grp)" if "grp \<in> set gl" for grp
  proof -
    have "fst grp \<noteq> CHR ''$''" using assms that by (auto simp: is_tag_def)
    then show ?thesis using str_nat_no_dollar by (simp add: token_def)
  qed
  then show ?thesis by (auto simp: runs_text_def)
qed

lemma split_rows:
  assumes "\<forall>r\<in>set rs. CHR ''$'' \<notin> set (txt r)" "CHR ''$'' \<notin> set final"
  shows "split_char (CHR ''$'') (concat (map (\<lambda>r. txt r @ ''$'') rs) @ final) =
           map txt rs @ [final]"
  using assms(1)
proof (induction rs)
  case Nil
  have "\<not> list_ex (\<lambda>c. c = CHR ''$'') final" using assms(2) by (simp add: list_ex_iff)
  then show ?case by (simp add: split_char_def split_where_none)
next
  case (Cons r rs)
  have "\<not> list_ex (\<lambda>c. c = CHR ''$'') (txt r)" using Cons.prems by (simp add: list_ex_iff)
  from split_where_prefix [OF this, of "CHR ''$''" "concat (map (\<lambda>r. txt r @ ''$'') rs) @ final"]
  have "split_char (CHR ''$'') (concat (map (\<lambda>r. txt r @ ''$'') (r # rs)) @ final) =
      txt r # split_char (CHR ''$'') (concat (map (\<lambda>r. txt r @ ''$'') rs) @ final)"
    by (simp add: split_char_def)
  then show ?case using Cons by simp
qed

lemma np_getitem_first:
  assumes "xs \<noteq> []"
  shows "np_getitem xs 0 = Inr (hd xs)"
  using assms by (cases xs) (simp_all add: np_getitem_def)

lemma np_getitem_last:
  assumes "xs \<noteq> []"
  shows "np_getitem xs (- 1) = Inr (last xs)"
proof -
  have "nat (int (length xs) - 1) = length xs - 1" by simp
  then show ?thesis using assms by (simp add: np_getitem_def last_conv_nth)
qed

lemma str_nat_no_char:
  assumes "\<not> is_digit c"
  shows "c \<notin> set (str_nat n)"
  using str_nat_all_digits [of n] assms by (auto simp: list_all_iff)

lemma header_value_field:
  assumes "\<not> is_space k" "k \<noteq> CHR ''=''"
  shows "header_value (k # '' = '' @ str_nat n) = Inr (int n)"
proof -
  let ?s = "k # '' = '' @ str_nat n"
  have l: "last ?s = last (str_nat n)" using str_nat_ne [of n] by simp
  have "is_digit (last (str_nat n))"
    using str_nat_all_digits [of n] str_nat_ne [of n] by (simp add: list_all_iff)
  then have "\<not> is_space (last ?s)" unfolding l using digit_not_space by blast
  then have st: "strip ?s = ?s" using assms(1) by (intro strip_id) simp_all
  have a: "\<not> list_ex (\<lambda>c. c = CHR ''='') [k, CHR '' '']" using assms(2) by simp
  have "CHR ''='' \<notin> set (str_nat n)" by (rule str_nat_no_char) (simp add: is_digit_def)
  then have b: "\<not> list_ex (\<lambda>c. c = CHR ''='') (CHR '' '' # str_nat n)" by (simp add: list_ex_iff)
  have "split_char (CHR ''='') ?s = [[k, CHR '' ''], CHR '' '' # str_nat n]"
    using split_where_prefix [OF a, of "CHR ''=''" "CHR '' '' # str_nat n"] split_where_none [OF b]
    by (simp add: split_char_def)
  then show ?thesis
    unfolding header_value_def st by (simp add: np_getitem_def bind_e_def py_int_space_str_nat)
qed

lemma parseRLE_lines_x:
  assumes "np_getitem line 0 = Inr (CHR ''x'')"
    and "np_getitem line (- 1) = Inr cl" "cl \<noteq> CHR ''!''"
    and "split_char (CHR '','') line = chunks"
    and "bind_e (np_getitem chunks 0) header_value = Inr x"
    and "bind_e (np_getitem chunks 1) header_value = Inr y"
  shows "parseRLE_lines (line # rest) (acc, xv, yv) = parseRLE_lines rest (acc, Some x, Some y)"
  using assms by (simp add: bind_e_def Let_def)

lemma parseRLE_lines_header:
  "parseRLE_lines ((''x = '' @ str_nat W @ '', y = '' @ str_nat H) # rest) (acc, xv, yv) =
     parseRLE_lines rest (acc, Some (int W), Some (int H))"
proof -
  let ?line = "''x = '' @ str_nat W @ '', y = '' @ str_nat H"
  have first: "np_getitem ?line 0 = Inr (CHR ''x'')" by (simp add: np_getitem_def)
  have "last ?line = last (str_nat H)" using str_nat_ne [of H] by simp
  moreover have "is_digit (last (str_nat H))"
    using str_nat_all_digits [of H] str_nat_ne [of H] by (simp add: list_all_iff)
  ultimately have "last ?line \<noteq> CHR ''!''" by (auto simp: is_digit_def)
  then have lastc: "\<exists>cl. np_getitem ?line (- 1) = Inr cl \<and> cl \<noteq> CHR ''!''"
    using np_getitem_last [of ?line] by simp
  have "CHR '','' \<notin> set (str_nat W)" "CHR '','' \<notin> set (str_nat H)"
    by (rule str_nat_no_char, simp add: is_digit_def)+
  then have a: "\<not> list_ex (\<lambda>c. c = CHR '','') (''x = '' @ str_nat W)"
    and b: "\<not> list_ex (\<lambda>c. c = CHR '','') ('' y = '' @ str_nat H)"
    by (simp_all add: list_ex_iff)
  have chunks: "split_char (CHR '','') ?line = [''x = '' @ str_nat W, '' y = '' @ str_nat H]"
    using split_where_prefix [OF a, of "CHR '',''" "'' y = '' @ str_nat H"] split_where_none [OF b]
    by (simp add: split_char_def)
  have x: "header_value (''x = '' @ str_nat W) = Inr (int W)"
    using header_value_field [of "CHR ''x''" W] by (simp add: is_space_def)
  have "header_value ('' y = '' @ str_nat H) = header_value (''y = '' @ str_nat H)"
    by (simp add: header_value_def strip_space)
  also have "\<dots> = Inr (int H)"
    using header_value_field [of "CHR ''y''" H] by (simp add: is_space_def)
  finally have y: "header_value ('' y = '' @ str_nat H) = Inr (int H)" .
  obtain cl where cl: "np_getitem ?line (- 1) = Inr cl" "cl \<noteq> CHR ''!''" using lastc by blast
  have c0: "bind_e (np_getitem [''x = '' @ str_nat W, '' y = '' @ str_nat H] 0) header_value = Inr (int W)"
    using x by (simp add: np_getitem_def bind_e_def)
  have c1: "bind_e (np_getitem [''x = '' @ str_nat W, '' y = '' @ str_nat H] 1) header_value = Inr (int H)"
    using y by (simp add: np_getitem_def bind_e_def)
  show ?thesis by (rule parseRLE_lines_x [OF first cl chunks c0 c1])
qed

lemma parseRLE_lines_body:
  assumes "\<forall>l\<in>set ls. l \<noteq> [] \<and> hd l \<noteq> CHR ''#'' \<and> hd l \<noteq> CHR ''x'' \<and> last l \<noteq> CHR ''!''"
    and "l \<noteq> []" "hd l \<noteq> CHR ''#''" "hd l \<noteq> CHR ''x''" "last l = CHR ''!''"
  shows "parseRLE_lines (ls @ [l]) (acc, xv, yv) = Inr (butlast (acc @ concat ls @ l), xv, yv)"
  using assms(1)
proof (induction ls arbitrary: acc)
  case Nil
  show ?case
    using assms(2-5) by (simp add: np_getitem_first np_getitem_last bind_e_def)
next
  case (Cons a ls)
  have a: "a \<noteq> []" "hd a \<noteq> CHR ''#''" "hd a \<noteq> CHR ''x''" "last a \<noteq> CHR ''!''"
    using Cons.prems by simp_all
  have "parseRLE_lines ((a # ls) @ [l]) (acc, xv, yv) = parseRLE_lines (ls @ [l]) (acc @ a, xv, yv)"
    using a by (simp add: np_getitem_first np_getitem_last bind_e_def)
  also have "\<dots> = Inr (butlast ((acc @ a) @ concat ls @ l), xv, yv)"
    using Cons by simp
  finally show ?case by simp
qed

lemma digit_not_hash: "is_digit c \<Longrightarrow> c \<noteq> CHR ''#'' \<and> c \<noteq> CHR ''x''"
  by (auto simp: is_digit_def)

lemma concat_butlast_last:
  assumes "xss \<noteq> []"
  shows "concat xss = concat (butlast xss) @ last xss"
proof -
  have "concat (butlast xss @ [last xss]) = concat (butlast xss) @ last xss" by simp
  then show ?thesis by (simp only: append_butlast_last_id [OF assms])
qed

lemma concat_lines: "concat (map concat xss) = concat (concat xss)"
  by (induction xss) simp_all

lemma token_chars:
  assumes "any_tag (fst grp)"
  shows "token grp \<noteq> [] \<and> hd (token grp) \<noteq> CHR ''#'' \<and> hd (token grp) \<noteq> CHR ''x'' \<and>
         \<not> is_space (hd (token grp)) \<and> last (token grp) = fst grp \<and> \<not> is_space (fst grp)"
proof -
  have tag: "fst grp \<noteq> CHR ''#''" "fst grp \<noteq> CHR ''x''" "\<not> is_space (fst grp)"
    using assms by (auto simp: any_tag_def body_tag_def is_space_def)
  have d: "is_digit (hd (str_nat (snd grp)))"
    using str_nat_all_digits [of "snd grp"] str_nat_ne [of "snd grp"] by (simp add: list_all_iff)
  then have dg: "hd (str_nat (snd grp)) \<noteq> CHR ''#''" "hd (str_nat (snd grp)) \<noteq> CHR ''x''"
    "\<not> is_space (hd (str_nat (snd grp)))"
    using digit_not_space digit_not_hash by blast+
  show ?thesis
  proof (cases "snd grp = 1")
    case True
    then show ?thesis using tag by (simp add: token_def)
  next
    case False
    then show ?thesis using tag dg str_nat_ne [of "snd grp"] by (simp add: token_def)
  qed
qed

lemma hd_concat_ne:
  assumes "ts \<noteq> []" "\<forall>tok\<in>set ts. tok \<noteq> []"
  shows "concat ts \<noteq> [] \<and> hd (concat ts) = hd (hd ts) \<and> last (concat ts) = last (last ts)"
proof -
  obtain a as where ts: "ts = a # as" using assms(1) by (cases ts) auto
  have a: "a \<noteq> []" using assms(2) ts by simp
  have l: "last ts \<noteq> []" using assms by simp
  have "concat ts = concat (butlast ts) @ last ts" by (rule concat_butlast_last [OF assms(1)])
  then have "last (concat ts) = last (last ts)" using l by simp
  then show ?thesis using ts a by simp
qed

lemma lines_of_groups:
  assumes c: "concat gss = map token body @ [''!'']" and ne: "gss \<noteq> []"
    and gne: "\<forall>ts\<in>set gss. ts \<noteq> []"
    and body: "\<forall>grp\<in>set body. body_tag (fst grp)"
  shows "\<exists>ls l. map concat gss = ls @ [l] \<and>
           (\<forall>a\<in>set (ls @ [l]). a \<noteq> [] \<and> hd a \<noteq> CHR ''#'' \<and> hd a \<noteq> CHR ''x'' \<and>
              \<not> is_space (hd a) \<and> \<not> is_space (last a)) \<and>
           (\<forall>a\<in>set ls. last a \<noteq> CHR ''!'') \<and> last l = CHR ''!'' \<and>
           concat (ls @ [l]) = runs_text body @ ''!''"
proof -
  let ?gs1 = "butlast gss" and ?gl = "last gss"
  have glne: "?gl \<noteq> []" using gne ne by simp
  have cc: "concat gss = concat ?gs1 @ ?gl" by (rule concat_butlast_last [OF ne])
  have bang: "any_tag (fst (CHR ''!'', Suc 0))" by (simp add: any_tag_def)
  have tok_body: "\<exists>grp. tok = token grp \<and> body_tag (fst grp)" if "tok \<in> set (map token body)" for tok
  proof -
    from that obtain grp where "grp \<in> set body" "tok = token grp" by auto
    then show ?thesis using body by blast
  qed
  have tok_all: "\<exists>grp. tok = token grp \<and> any_tag (fst grp)" if "tok \<in> set (concat gss)" for tok
  proof -
    from that have "tok \<in> set (map token body) \<or> tok = ''!''" unfolding c by auto
    then show ?thesis
    proof
      assume "tok \<in> set (map token body)"
      from tok_body [OF this] show ?thesis unfolding any_tag_def by blast
    next
      assume "tok = ''!''"
      then have "tok = token (CHR ''!'', Suc 0)" by (simp add: token_bang)
      then show ?thesis using bang by blast
    qed
  qed
  have tok_ok: "tok \<noteq> [] \<and> hd tok \<noteq> CHR ''#'' \<and> hd tok \<noteq> CHR ''x'' \<and> \<not> is_space (hd tok) \<and>
      \<not> is_space (last tok)" if "tok \<in> set (concat gss)" for tok
  proof -
    from tok_all [OF that] obtain grp where g: "tok = token grp" "any_tag (fst grp)" by blast
    from token_chars [OF g(2)] show ?thesis unfolding g(1) by simp
  qed
  have line_ok: "concat ts \<noteq> [] \<and> hd (concat ts) \<noteq> CHR ''#'' \<and> hd (concat ts) \<noteq> CHR ''x'' \<and>
      \<not> is_space (hd (concat ts)) \<and> \<not> is_space (last (concat ts))" if "ts \<in> set gss" for ts
  proof -
    have tne: "ts \<noteq> []" using gne that by simp
    have sub: "set ts \<subseteq> set (concat gss)" using that by auto
    then have all: "\<forall>tok\<in>set ts. tok \<noteq> []" using tok_ok by blast
    have "hd ts \<in> set ts" "last ts \<in> set ts" using tne by simp_all
    then have h: "hd ts \<in> set (concat gss)" "last ts \<in> set (concat gss)" using sub by blast+
    from hd_concat_ne [OF tne all] tok_ok [OF h(1)] tok_ok [OF h(2)] show ?thesis by simp
  qed
  have bl: "butlast (concat gss) = concat ?gs1 @ butlast ?gl"
    unfolding cc using glne by (simp add: butlast_append)
  have bl2: "butlast (concat gss) = map token body" unfolding c by simp
  have last_gl: "last ?gl = ''!''"
  proof -
    have "last (concat gss) = last ?gl" unfolding cc using glne by simp
    then show ?thesis unfolding c by simp
  qed
  have before: "last (concat ts) \<noteq> CHR ''!''" if "ts \<in> set ?gs1" for ts
  proof -
    have in_gss: "ts \<in> set gss" using that by (rule in_set_butlastD)
    have tne: "ts \<noteq> []" using gne in_gss by simp
    have "last ts \<in> set ts" using tne by simp
    then have "last ts \<in> set (concat ?gs1)" using that by auto
    then have "last ts \<in> set (map token body)" using bl bl2 by (metis Un_iff set_append)
    from tok_body [OF this] obtain grp where g: "last ts = token grp" "body_tag (fst grp)" by blast
    have g2: "any_tag (fst grp)" using g(2) by (simp add: any_tag_def)
    have "last (last ts) = fst grp" using token_chars [OF g2] g(1) by simp
    moreover have "fst grp \<noteq> CHR ''!''" using g(2) by (auto simp: body_tag_def)
    moreover have "\<forall>tok\<in>set ts. tok \<noteq> []" using tok_ok in_gss by auto
    ultimately show ?thesis using hd_concat_ne [OF tne] by simp
  qed
  have lastl: "last (concat ?gl) = CHR ''!''"
  proof -
    have "?gl \<in> set gss" using ne by simp
    then have "\<forall>tok\<in>set ?gl. tok \<noteq> []" using tok_ok by auto
    from hd_concat_ne [OF glne this] show ?thesis using last_gl by simp
  qed
  have "map concat (?gs1 @ [?gl]) = map concat ?gs1 @ [concat ?gl]" by simp
  then have m: "map concat gss = map concat ?gs1 @ [concat ?gl]"
    by (simp only: append_butlast_last_id [OF ne])
  have all: "\<forall>a\<in>set (map concat ?gs1 @ [concat ?gl]). a \<noteq> [] \<and> hd a \<noteq> CHR ''#'' \<and> hd a \<noteq> CHR ''x'' \<and>
              \<not> is_space (hd a) \<and> \<not> is_space (last a)"
    unfolding m [symmetric] using line_ok by auto
  have bef: "\<forall>a\<in>set (map concat ?gs1). last a \<noteq> CHR ''!''" using before by auto
  have "concat (map concat ?gs1 @ [concat ?gl]) = concat (concat gss)"
    unfolding m [symmetric] by (rule concat_lines)
  also have "\<dots> = runs_text body @ ''!''" unfolding c by (simp add: runs_text_def)
  finally have cat: "concat (map concat ?gs1 @ [concat ?gl]) = runs_text body @ ''!''" .
  from m all bef lastl cat show ?thesis by blast
qed

lemma groupby_ne: "s \<noteq> [] \<Longrightarrow> groupby s \<noteq> []"
  by (cases s) (auto split: list.splits)

lemma row_string_tags:
  assumes "grp \<in> set (groupby (row_string g r m M))"
  shows "is_tag (fst grp) \<and> 1 \<le> snd grp"
proof -
  obtain c n where grp: "grp = (c, n)" by (cases grp)
  from groupby_bounds [of c n "row_string g r m M"] assms grp
  have "c \<in> set (row_string g r m M)" "1 \<le> n" by simp_all
  moreover have "is_tag x" if "x \<in> set (row_string g r m M)" for x
    using that by (auto simp: row_string_def is_tag_def)
  ultimately show ?thesis using grp by simp
qed

lemma file_lines_text:
  assumes "text_lines s = ls" "ls \<noteq> []" "last ls \<noteq> []"
  shows "file_lines s = ls"
  using assms by (simp add: file_lines_def text_lines_def Let_def)

lemma str_int_nat: "0 \<le> i \<Longrightarrow> str_int i = str_nat (nat i)"
  by (simp add: str_int_def)

lemma in_rows_groups:
  assumes "grp \<in> set (concat (map (\<lambda>r. G r @ [d]) rs))"
  shows "(\<exists>r. grp \<in> set (G r)) \<or> grp = d"
  using assms by (induction rs) auto

text \<open>
  Reading back what \<^verbatim>\<open>writeRLE\<close> writes for a box inside the grid gives the crop of the
  grid to that box: the encoder and the decoder are inverse to each other whenever the
  bounds are integers within the grid.
\<close>

lemma roundtrip_valid_box:
  assumes wf: "wf_grid g" and sz: "index_sized g"
    and tb: "t \<le> b" and bR: "b < shape0 g" and m0: "0 \<le> m" and mM: "m \<le> M"
    and MC: "M < int (shape1 g)"
  shows "parseRLE (file_lines (fst (writeRLE_box g t b (Fin m) (Fin M)))) = Inr (crop g t b m M)"
proof -
  from writeRLE_box_written [OF wf sz tb bR m0 mM MC] obtain gs gss where
    hnl: "CHR 0x0A \<notin> set (header_line t b (Fin m) (Fin M))" and
    gsd: "gs = concat (map (row_groups g b m M) [t..<b + 1])" and
    cat: "concat gss = map token (elide gs)" and gne: "gss \<noteq> []" and
    all: "\<forall>ts\<in>set gss. ts \<noteq> [] \<and> length (concat ts) \<le> 70 \<and> CHR 0x0A \<notin> set (concat ts)" and
    wr: "writeRLE_box g t b (Fin m) (Fin M) =
       (writeRLE_header t b (Fin m) (Fin M) @ join_lines (map concat gss), None)"
    by blast
  define G where "G = (\<lambda>r. groupby (row_string g r m M))"
  define pre where "pre = concat (map (\<lambda>r. G r @ [(CHR ''$'', 1)]) [t..<b])"
  define body where "body = pre @ trim_dead (G b)"
  define rowc where "rowc = (\<lambda>r. map (\<lambda>c. cells g ! r ! nat c) [m..M])"
  define Wd where "Wd = nat (M - m + 1)"
  define Hd where "Hd = nat (int b - int t + 1)"
  have tags: "is_tag (fst grp) \<and> 1 \<le> snd grp" if "grp \<in> set (G r)" for grp r
    using that row_string_tags unfolding G_def by blast
  have rs_ne: "row_string g r m M \<noteq> []" for r using mM by (simp add: row_string_def)
  have Gne: "G r \<noteq> []" for r unfolding G_def by (rule groupby_ne [OF rs_ne])
  have gs: "gs = pre @ G b @ [(CHR ''!'', 1)]"
    unfolding gsd pre_def G_def by (rule rows_groups_split [OF tb])
  have el: "elide gs = body @ [(CHR ''!'', 1)]"
    unfolding gs body_def
    using elide_trim [OF Gne [of b], where z = "(CHR ''!'', 1)" and pre = pre] by simp
  have toks: "concat gss = map token body @ [''!'']"
    unfolding cat el by (simp add: token_def)
  have trim_sub: "set (trim_dead (G b)) \<subseteq> set (G b)"
    by (auto simp: trim_dead_def dest: in_set_butlastD)
  have tag_body: "body_tag (fst grp)" if "grp \<in> set (G r)" for grp r
    using tags [OF that] by (simp add: body_tag_def is_tag_def) blast
  have dollar: "body_tag (fst (CHR ''$'', 1 :: nat))" by (simp add: body_tag_def)
  have pre_tags: "body_tag (fst grp)" if "grp \<in> set pre" for grp
  proof -
    from that have "(\<exists>r. grp \<in> set (G r)) \<or> grp = (CHR ''$'', 1)"
      unfolding pre_def by (rule in_rows_groups)
    then show ?thesis using tag_body dollar by blast
  qed
  have body_tags: "\<forall>grp\<in>set body. body_tag (fst grp)"
  proof
    fix grp assume "grp \<in> set body"
    then have "grp \<in> set pre \<or> grp \<in> set (G b)" unfolding body_def using trim_sub by auto
    then show "body_tag (fst grp)" using pre_tags tag_body by blast
  qed
  have gss_ne: "\<forall>ts\<in>set gss. ts \<noteq> []" using all by blast
  from lines_of_groups [OF toks gne gss_ne body_tags] obtain ls l where
    L: "map concat gss = ls @ [l]"
      "\<forall>a\<in>set (ls @ [l]). a \<noteq> [] \<and> hd a \<noteq> CHR ''#'' \<and> hd a \<noteq> CHR ''x'' \<and>
              \<not> is_space (hd a) \<and> \<not> is_space (last a)"
      "\<forall>a\<in>set ls. last a \<noteq> CHR ''!''" "last l = CHR ''!''"
      "concat (ls @ [l]) = runs_text body @ ''!''"
    by blast
  let ?hl = "header_line t b (Fin m) (Fin M)"
  have hl: "?hl = ''x = '' @ str_nat Wd @ '', y = '' @ str_nat Hd"
    using tb mM by (simp add: header_line_def str_int_nat Wd_def Hd_def)
  have nl: "\<forall>a\<in>set (map concat gss). CHR 0x0A \<notin> set a" using all by simp
  have mne: "map concat gss \<noteq> []" using gne by simp
  have "fst (writeRLE_box g t b (Fin m) (Fin M)) = ?hl @ [CHR 0x0A] @ join_lines (map concat gss)"
    using wr by (simp add: writeRLE_header_line)
  then have "text_lines (fst (writeRLE_box g t b (Fin m) (Fin M))) = ?hl # map concat gss"
    using text_lines_line [OF hnl, of "join_lines (map concat gss)"] text_lines_join [OF mne nl]
    by simp
  then have tl: "text_lines (fst (writeRLE_box g t b (Fin m) (Fin M))) = ?hl # ls @ [l]" unfolding L(1) .
  have lne: "l \<noteq> []" using L(2) by simp
  have fl: "file_lines (fst (writeRLE_box g t b (Fin m) (Fin M))) = ?hl # ls @ [l]"
    by (rule file_lines_text [OF tl]) (use lne in simp_all)
  have st_body: "strip a = a" if "a \<in> set (ls @ [l])" for a
    using L(2) that by (intro strip_id) blast+
  have hl_ne: "?hl \<noteq> []" unfolding hl by simp
  have "last ?hl = last (str_nat Hd)" unfolding hl using str_nat_ne [of Hd] by simp
  moreover have "is_digit (last (str_nat Hd))"
    using str_nat_all_digits [of Hd] str_nat_ne [of Hd] by (simp add: list_all_iff)
  ultimately have "\<not> is_space (last ?hl)" using digit_not_space by simp
  moreover have "\<not> is_space (hd ?hl)" unfolding hl by (simp add: is_space_def)
  ultimately have st_hl: "strip ?hl = ?hl" using hl_ne by (intro strip_id)
  have st: "map strip (?hl # ls @ [l]) = ?hl # ls @ [l]"
  proof -
    have "map strip (ls @ [l]) = ls @ [l]" by (rule map_idI) (rule st_body)
    then show ?thesis using st_hl by simp
  qed
  have l_ok: "l \<noteq> []" "hd l \<noteq> CHR ''#''" "hd l \<noteq> CHR ''x''" using L(2) by simp_all
  have ls_ok: "\<forall>a\<in>set ls. a \<noteq> [] \<and> hd a \<noteq> CHR ''#'' \<and> hd a \<noteq> CHR ''x'' \<and> last a \<noteq> CHR ''!''"
    using L(2,3) by simp
  have "parseRLE_lines (?hl # ls @ [l]) ([], None, None) =
      parseRLE_lines (ls @ [l]) ([], Some (int Wd), Some (int Hd))"
    unfolding hl by (rule parseRLE_lines_header)
  also have "\<dots> = Inr (butlast ([] @ concat ls @ l), Some (int Wd), Some (int Hd))"
    by (rule parseRLE_lines_body [OF ls_ok l_ok L(4)])
  also have "butlast ([] @ concat ls @ l) = runs_text body"
  proof -
    have "concat ls @ l = runs_text body @ ''!''" using L(5) by simp
    then show ?thesis by simp
  qed
  finally have pl: "parseRLE_lines (?hl # ls @ [l]) ([], None, None) =
      Inr (runs_text body, Some (int Wd), Some (int Hd))" .
  have rt: "runs_text body =
      concat (map (\<lambda>r. runs_text (G r) @ ''$'') [t..<b]) @ runs_text (trim_dead (G b))"
  proof -
    have a: "runs_text body = concat (map token pre) @ runs_text (trim_dead (G b))"
      by (simp add: runs_text_def body_def)
    have b: "concat (map token pre) = concat (map (\<lambda>r. runs_text (G r) @ ''$'') [t..<b])"
      unfolding pre_def by (rule runs_text_rows)
    show ?thesis unfolding a b ..
  qed
  have nd: "CHR ''$'' \<notin> set (runs_text gl)" if "set gl \<subseteq> set (G r)" for gl r
    by (rule runs_text_no_dollar) (use that tags in blast)
  have chunks: "split_char (CHR ''$'') (runs_text body) =
      map (\<lambda>r. runs_text (G r)) [t..<b] @ [runs_text (trim_dead (G b))]"
    unfolding rt by (rule split_rows) (use nd trim_sub in auto)
  have rowlen: "int (length (rowc r)) = int Wd" for r using mM by (simp add: rowc_def Wd_def)
  have cells_row: "run_cells_of (G r) = rowc r" if "r < shape0 g" for r
    unfolding G_def run_cells_of_groupby rowc_def
    by (rule row_string_cells [OF wf that m0 MC])
  have mid: "fill_line (int Wd) (expand (runs_text (G r))) = rowc r" if "r < shape0 g" for r
  proof -
    have "expand (runs_text (G r)) = run_cells_of (G r)"
      by (rule expand_runs_text) (use tags in blast)
    then show ?thesis using cells_row [OF that] rowlen [of r] by (simp add: fill_line_full)
  qed
  have lastrow: "fill_line (int Wd) (expand (runs_text (trim_dead (G b)))) = rowc b"
  proof -
    have "expand (runs_text (trim_dead (G b))) = run_cells_of (trim_dead (G b))"
      by (rule expand_runs_text) (use tags trim_sub in blast)
    moreover have "int (length (run_cells_of (G b))) = int Wd"
      using cells_row [OF bR] rowlen [of b] by simp
    ultimately show ?thesis using fill_line_trim [of "G b" "int Wd"] cells_row [OF bR] by simp
  qed
  have rows: "map (\<lambda>chunk. fill_line (int Wd) (expand chunk)) (split_char (CHR ''$'') (runs_text body)) =
      map rowc [t..<b + 1]"
  proof -
    have "map (\<lambda>r. fill_line (int Wd) (expand (runs_text (G r)))) [t..<b] = map rowc [t..<b]"
      by (rule map_cong [OF refl]) (use mid bR in simp)
    then have "map (\<lambda>chunk. fill_line (int Wd) (expand chunk)) (split_char (CHR ''$'') (runs_text body)) =
        map rowc [t..<b] @ [rowc b]"
      unfolding chunks by (simp add: lastrow comp_def)
    then show ?thesis using tb by simp
  qed
  have len: "length (rowc r) = Wd" for r using rowlen [of r] by simp
  have up: "[t..<b + 1] = t # [Suc t..<b + 1]" using tb by (intro upt_conv_Cons) simp
  have hdr: "hd (map rowc [t..<b + 1]) = rowc t" unfolding up by simp
  have rect: "list_all (\<lambda>q. length q = length (hd (map rowc [t..<b + 1]))) (map rowc [t..<b + 1])"
    unfolding hdr list_all_iff using len by auto
  have rne: "map rowc [t..<b + 1] \<noteq> []" unfolding up by simp
  have "parseRLE (file_lines (fst (writeRLE_box g t b (Fin m) (Fin M)))) = np_array (map rowc [t..<b + 1])"
    unfolding fl parseRLE_def st pl by (simp add: bind_e_def parseRLE_chunks_map rows)
  also have "\<dots> = Inr \<lparr>shape0 = length (map rowc [t..<b + 1]),
      shape1 = length (hd (map rowc [t..<b + 1])), cells = map rowc [t..<b + 1]\<rparr>"
    by (rule np_array_rect [OF rne rect])
  also have "\<dots> = Inr (crop g t b m M)"
    unfolding hdr len using tb by (simp add: crop_def rowc_def Wd_def)
  finally show ?thesis .
qed

text \<open>
  C3. On the 1-by-1 grid whose only cell is alive, writeRLE writes the header
  \<open>x = -inf, y = 1\<close> and then raises TypeError, when encodeGrid asks for the range of
  columns up to -inf + 1: no body is written. Reading back what was written raises
  ValueError at the header. No grid comes out, where the claim promises the crop to the
  bounding box (0, 0, 0, 0), which is the grid itself. (With that box in the place of the
  result of findBoundaries the crop does come out, by \<open>roundtrip_valid_box\<close>.)
\<close>

theorem roundtrip_single_cell_fails:
  "wf_grid single_cell \<and> has_live single_cell \<and>
   spec_box single_cell = (0, 0, 0, 0) \<and> crop single_cell 0 0 0 0 = single_cell \<and>
   findBoundaries single_cell = Inr (0, 0, Fin 0, NegInf) \<and>
   writeRLE single_cell = (''x = -inf, y = 1'' @ [CHR 0x0A], Some TypeError) \<and>
   parseRLE (file_lines (fst (writeRLE single_cell))) = Inl ValueError"
  by code_simp

end
